theory Spec2Isabelle
  imports Complex_Main "HOL-Library.Word" "HOL-Library.Monad_Syntax"
begin

unbundle bit_operations_syntax

section \<open>Reliable transport over UDP (lab2): the model\<close>

text \<open>
  The repository holds two revisions of the transport. The current one is
  \<^verbatim>\<open>protocol.h\<close> lines 201-433, \<^verbatim>\<open>sender.cpp\<close> lines 1-653 and \<^verbatim>\<open>receiver.cpp\<close>;
  the earlier one is \<^verbatim>\<open>protocol.h\<close> lines 1-200, \<^verbatim>\<open>sender.cpp\<close> lines 654-1148 and
  the unnamed receiver \<^verbatim>\<open>part_001\<close>. Definitions carry the source's names for the current
  revision; where the earlier revision differs, its function has the suffix \<open>_old\<close>.

  The program is built for Windows on x86 (\<^verbatim>\<open>winsock2.h\<close>), so the packed header
  structs are laid out little-endian and \<^verbatim>\<open>htons\<close> swaps the two bytes of its argument.
\<close>

subsection \<open>Machine types and protocol constants\<close>

type_synonym u8 = "8 word"
type_synonym u16 = "16 word"
type_synonym u32 = "32 word"

abbreviation MAX_DATA_SIZE :: nat where "MAX_DATA_SIZE \<equiv> 1024"
abbreviation HEADER_SIZE :: nat where "HEADER_SIZE \<equiv> 20"
abbreviation MAX_PACKET_SIZE :: nat where "MAX_PACKET_SIZE \<equiv> MAX_DATA_SIZE + HEADER_SIZE"
abbreviation WINDOW_SIZE :: nat where "WINDOW_SIZE \<equiv> 16"
abbreviation TIMEOUT_MS :: int where "TIMEOUT_MS \<equiv> 1000"

text \<open>\<^verbatim>\<open>enum PacketType : uint8_t\<close>\<close>

abbreviation SYN :: u8 where "SYN \<equiv> 0x01"
abbreviation SYN_ACK :: u8 where "SYN_ACK \<equiv> 0x02"
abbreviation DATA :: u8 where "DATA \<equiv> 0x03"
abbreviation ACK :: u8 where "ACK \<equiv> 0x04"
abbreviation FIN :: u8 where "FIN \<equiv> 0x05"
abbreviation FIN_ACK :: u8 where "FIN_ACK \<equiv> 0x06"
abbreviation FILE_NAME :: u8 where "FILE_NAME \<equiv> 0x07"
abbreviation FILE_NAME_ACK :: u8 where "FILE_NAME_ACK \<equiv> 0x08"

datatype ConnectionState = CLOSED | SYN_SENT | SYN_RECEIVED | ESTABLISHED | FIN_WAIT | CLOSE_WAIT

datatype CongestionState = SLOW_START | CONGESTION_AVOIDANCE | FAST_RECOVERY

subsection \<open>Packets\<close>

record PacketHeader =
  type :: u8
  flags :: u8
  checksum :: u16
  seq_num :: u32
  ack_num :: u32
  window_size :: u16
  data_length :: u16
  sack_count :: u32

record SACKBlock =
  left_edge :: u32
  right_edge :: u32

text \<open>
  \<^verbatim>\<open>uint8_t data[MAX_DATA_SIZE]\<close> is a byte list; the constructor makes it
  \<open>MAX_DATA_SIZE\<close> zero bytes long. An access at an index beyond the list is an
  out-of-bounds access of the array: the functions that index it return \<open>None\<close> there.
\<close>

record Packet =
  header :: PacketHeader
  data :: "u8 list"
  sack_blocks :: "SACKBlock list"

definition PacketHeader_init :: PacketHeader where
  "PacketHeader_init =
     \<lparr>type = 0, flags = 0, checksum = 0, seq_num = 0, ack_num = 0,
      window_size = 0, data_length = 0, sack_count = 0\<rparr>"

definition Packet_init :: Packet where
  "Packet_init = \<lparr>header = PacketHeader_init, data = replicate MAX_DATA_SIZE 0, sack_blocks = []\<rparr>"

subsection \<open>Memory layout of the packed structs\<close>

definition le16 :: "u16 \<Rightarrow> u8 list" where
  "le16 w = [ucast w, ucast (drop_bit 8 w)]"

definition le32 :: "u32 \<Rightarrow> u8 list" where
  "le32 w = [ucast w, ucast (drop_bit 8 w), ucast (drop_bit 16 w), ucast (drop_bit 24 w)]"

definition u16_at :: "u8 list \<Rightarrow> nat \<Rightarrow> u16" where
  "u16_at bs i = ucast (bs ! i) OR push_bit 8 (ucast (bs ! (i + 1)))"

definition u32_at :: "u8 list \<Rightarrow> nat \<Rightarrow> u32" where
  "u32_at bs i = ucast (bs ! i) OR push_bit 8 (ucast (bs ! (i + 1)))
                 OR push_bit 16 (ucast (bs ! (i + 2))) OR push_bit 24 (ucast (bs ! (i + 3)))"

text \<open>The \<open>sizeof(PacketHeader)\<close> = 20 bytes behind \<^verbatim>\<open>reinterpret_cast<const uint8_t*>(&header)\<close>.\<close>

definition header_bytes :: "PacketHeader \<Rightarrow> u8 list" where
  "header_bytes h =
     [type h, flags h] @ le16 (checksum h) @ le32 (seq_num h) @ le32 (ack_num h)
     @ le16 (window_size h) @ le16 (data_length h) @ le32 (sack_count h)"

text \<open>\<^verbatim>\<open>memcpy(&packet.header, buffer, sizeof(PacketHeader))\<close>, for a list of 20 bytes.\<close>

definition header_of_bytes :: "u8 list \<Rightarrow> PacketHeader" where
  "header_of_bytes bs =
     \<lparr>type = bs ! 0, flags = bs ! 1, checksum = u16_at bs 2, seq_num = u32_at bs 4,
      ack_num = u32_at bs 8, window_size = u16_at bs 12, data_length = u16_at bs 14,
      sack_count = u32_at bs 16\<rparr>"

definition sack_bytes :: "SACKBlock \<Rightarrow> u8 list" where
  "sack_bytes s = le32 (left_edge s) @ le32 (right_edge s)"

definition sack_of_bytes :: "u8 list \<Rightarrow> SACKBlock" where
  "sack_of_bytes bs = \<lparr>left_edge = u32_at bs 0, right_edge = u32_at bs 4\<rparr>"

definition htons :: "u16 \<Rightarrow> u16" where
  "htons x = push_bit 8 x OR drop_bit 8 x"

subsection \<open>Checksum\<close>

text \<open>
  The accumulator \<^verbatim>\<open>uint32_t sum\<close> is a natural number below \<open>2 ^ 32\<close>; every addition
  wraps. \<open>add_words\<close> is the loop
  \<^verbatim>\<open>for (i = 0; i < n; i += 2) sum += (i + 1 < n) ? (p[i] << 8) | p[i + 1] : p[i] << 8\<close>
  over the bytes \<open>p[0..n)\<close>.
\<close>

fun add_words :: "nat \<Rightarrow> u8 list \<Rightarrow> nat" where
  "add_words s [] = s"
| "add_words s [a] = (s + push_bit 8 (unat a)) mod 2 ^ 32"
| "add_words s (a # b # bs) = add_words ((s + (push_bit 8 (unat a) OR unat b)) mod 2 ^ 32) bs"

text \<open>\<^verbatim>\<open>while (sum >> 16) sum = (sum & 0xFFFF) + (sum >> 16);\<close>\<close>

function fold_carry :: "nat \<Rightarrow> nat" where
  "fold_carry s =
     (if drop_bit 16 s \<noteq> 0 then fold_carry (((s AND 0xFFFF) + drop_bit 16 s) mod 2 ^ 32) else s)"
  by pat_completeness auto
termination
proof (relation "measure id")
  show "wf (measure id)" by simp
next
  fix s :: nat
  assume "drop_bit 16 s \<noteq> 0"
  then have "s div 65536 \<ge> 1"
    by (simp add: drop_bit_eq_div)
  moreover have "s = 65536 * (s div 65536) + s mod 65536"
    by simp
  ultimately have "s mod 65536 + s div 65536 < s"
    by linarith
  moreover have "(s mod 65536 + s div 65536) mod 2 ^ 32 \<le> s mod 65536 + s div 65536"
    by simp
  moreover have "s AND 0xFFFF = s mod 65536"
  proof -
    have "s AND mask 16 = s mod 2 ^ 16"
      by (simp only: flip: take_bit_eq_mask take_bit_eq_mod)
    then show ?thesis
      by (simp add: mask_eq_exp_minus_1)
  qed
  ultimately show "(((s AND 0xFFFF) + drop_bit 16 s) mod 2 ^ 32, s) \<in> measure id"
    by (simp add: drop_bit_eq_div)
qed

text \<open>The SACK loop of \<open>calculate_checksum\<close>: four 16-bit words per block.\<close>

definition add_sacks :: "nat \<Rightarrow> SACKBlock list \<Rightarrow> nat" where
  "add_sacks s bl = foldl (\<lambda>acc b. add_words acc (sack_bytes b)) s bl"

text \<open>
  \<open>calculate_checksum\<close> of the current revision sums every header word, the checksum field
  included. It reads \<open>data[0..data_length)\<close>.
\<close>

definition calculate_checksum :: "Packet \<Rightarrow> u16 option" where
  "calculate_checksum p =
     (let n = unat (data_length (header p)) in
      if n > length (data p) then None
      else
        let s1 = add_words 0 (header_bytes (header p));
            s2 = add_words s1 (take n (data p));
            s3 = add_sacks s2 (sack_blocks p)
        in Some (NOT (of_nat (fold_carry s3))))"

text \<open>
  The earlier revision skips the checksum field: it adds the word at bytes 0-1 and then
  the words from byte 4 on.
\<close>

definition calculate_checksum_old :: "Packet \<Rightarrow> u16 option" where
  "calculate_checksum_old p =
     (let n = unat (data_length (header p)); hb = header_bytes (header p) in
      if n > length (data p) then None
      else
        let s0 = (0 + (push_bit 8 (unat (hb ! 0)) OR unat (hb ! 1))) mod 2 ^ 32;
            s1 = add_words s0 (drop 4 hb);
            s2 = add_words s1 (take n (data p));
            s3 = add_sacks s2 (sack_blocks p)
        in Some (NOT (of_nat (fold_carry s3))))"

definition verify_checksum :: "Packet \<Rightarrow> bool option" where
  "verify_checksum p = map_option (\<lambda>c. c = 0x0000) (calculate_checksum p)"

definition verify_checksum_old :: "Packet \<Rightarrow> bool option" where
  "verify_checksum_old p =
     (let original = checksum (header p);
          zeroed = p\<lparr>header := (header p)\<lparr>checksum := 0\<rparr>\<rparr>
      in map_option (\<lambda>calculated. calculated = original) (calculate_checksum_old zeroed))"

text \<open>
  The statement \<^verbatim>\<open>p.header.checksum = htons(p.calculate_checksum())\<close> of the current
  senders, and \<^verbatim>\<open>p.header.checksum = p.calculate_checksum()\<close> of the earlier ones.
  Every caller has \<open>data_length \<le> MAX_DATA_SIZE\<close>, where the checksum is defined.
\<close>

definition set_checksum :: "Packet \<Rightarrow> Packet" where
  "set_checksum p =
     (case calculate_checksum p of
        Some c \<Rightarrow> p\<lparr>header := (header p)\<lparr>checksum := htons c\<rparr>\<rparr>
      | None \<Rightarrow> p)"

definition set_checksum_old :: "Packet \<Rightarrow> Packet" where
  "set_checksum_old p =
     (case calculate_checksum_old p of
        Some c \<Rightarrow> p\<lparr>header := (header p)\<lparr>checksum := c\<rparr>\<rparr>
      | None \<Rightarrow> p)"

subsection \<open>Serialization\<close>

definition serialize :: "Packet \<Rightarrow> u8 list option" where
  "serialize p =
     (let n = unat (data_length (header p)) in
      if n > length (data p) then None
      else Some (header_bytes (header p) @ take n (data p) @ concat (map sack_bytes (sack_blocks p))))"

text \<open>
  A read of \<open>n\<close> bytes at offset \<open>off\<close> of the receive buffer, and \<^verbatim>\<open>memcpy\<close> of \<open>src\<close>
  to the start of an array: \<open>None\<close> when the access leaves the buffer or the array.
\<close>

definition buf_read :: "u8 list \<Rightarrow> nat \<Rightarrow> nat \<Rightarrow> u8 list option" where
  "buf_read buf off n = (if off + n \<le> length buf then Some (take n (drop off buf)) else None)"

definition array_write :: "u8 list \<Rightarrow> u8 list \<Rightarrow> u8 list option" where
  "array_write arr src = (if length src \<le> length arr then Some (src @ drop (length src) arr) else None)"

text \<open>The loop \<^verbatim>\<open>for (i = 0; i < sack_count; ++i)\<close> of \<open>deserialize\<close>, \<open>n\<close> iterations left.\<close>

fun deserialize_sacks :: "nat \<Rightarrow> u8 list \<Rightarrow> nat \<Rightarrow> SACKBlock list \<Rightarrow> SACKBlock list option" where
  "deserialize_sacks 0 buf offset acc = Some acc"
| "deserialize_sacks (Suc n) buf offset acc =
     (if offset + 8 \<le> length buf then
        do { bs \<leftarrow> buf_read buf offset 8;
             deserialize_sacks n buf (offset + 8) (acc @ [sack_of_bytes bs]) }
      else deserialize_sacks n buf offset acc)"

text \<open>\<open>deserialize buffer\<close>: the source's \<open>length\<close> argument is the length of the list.\<close>

definition deserialize :: "u8 list \<Rightarrow> Packet option" where
  "deserialize buffer =
     (if length buffer < HEADER_SIZE then Some Packet_init
      else do {
        hb \<leftarrow> buf_read buffer 0 HEADER_SIZE;
        let h = header_of_bytes hb;
        let n = unat (data_length h);
        (d, offset) \<leftarrow>
          (if n > 0 \<and> HEADER_SIZE + n \<le> length buffer then
             do { src \<leftarrow> buf_read buffer HEADER_SIZE n;
                  d \<leftarrow> array_write (data Packet_init) src;
                  Some (d, HEADER_SIZE + n) }
           else Some (data Packet_init, HEADER_SIZE));
        sacks \<leftarrow> deserialize_sacks (unat (sack_count h)) buffer offset [];
        Some \<lparr>header = h, data = d, sack_blocks = sacks\<rparr>
      })"

declare fold_carry.simps [simp del]

subsection \<open>Auxiliary notions for the codec\<close>

text \<open>A packet as the senders build it: the array has its full size, the declared length fits
  it and \<open>sack_count\<close> counts the SACK blocks.\<close>

definition well_formed :: "Packet \<Rightarrow> bool" where
  "well_formed p \<longleftrightarrow>
     length (data p) = MAX_DATA_SIZE \<and> unat (data_length (header p)) \<le> MAX_DATA_SIZE \<and>
     unat (sack_count (header p)) = length (sack_blocks p)"

text \<open>The sum of the big-endian 16-bit words of a byte sequence, without wrap-around.\<close>

fun wsum :: "u8 list \<Rightarrow> nat" where
  "wsum [] = 0"
| "wsum [a] = 256 * unat a"
| "wsum (a # b # bs) = 256 * unat a + unat b + wsum bs"

definition sacks_sum :: "SACKBlock list \<Rightarrow> nat" where
  "sacks_sum bl = sum_list (map (\<lambda>b. wsum (sack_bytes b)) bl)"

definition packet_sum :: "Packet \<Rightarrow> nat" where
  "packet_sum p = wsum (header_bytes (header p))
                  + wsum (take (unat (data_length (header p))) (data p))
                  + sacks_sum (sack_blocks p)"

definition packet_sum_old :: "Packet \<Rightarrow> nat" where
  "packet_sum_old p =
     (256 * unat (header_bytes (header p) ! 0) + unat (header_bytes (header p) ! 1))
     + wsum (drop 4 (header_bytes (header p)))
     + wsum (take (unat (data_length (header p))) (data p))
     + sacks_sum (sack_blocks p)"

text \<open>A DATA packet with three payload bytes and one SACK block, checksum field not yet set.\<close>

definition example_packet :: Packet where
  "example_packet =
     \<lparr>header = PacketHeader_init\<lparr>type := DATA, seq_num := 7, data_length := 3, sack_count := 1\<rparr>,
      data = [0x41, 0x42, 0x43] @ replicate 1021 0,
      sack_blocks = [\<lparr>left_edge = 9, right_edge = 11\<rparr>]\<rparr>"

section \<open>Containers\<close>

text \<open>
  \<^verbatim>\<open>std::map<uint32_t, V>\<close> is an association list kept in key order, \<^verbatim>\<open>std::set<uint32_t>\<close>
  a list kept in order without repetition: iteration visits the entries in that order.
  \<open>map_of\<close> is \<^verbatim>\<open>find\<close>.
\<close>

fun map_put :: "u32 \<Rightarrow> 'v \<Rightarrow> (u32 \<times> 'v) list \<Rightarrow> (u32 \<times> 'v) list" where
  "map_put k v [] = [(k, v)]"
| "map_put k v ((k', v') # m) =
     (if k = k' then (k, v) # m
      else if k < k' then (k, v) # (k', v') # m
      else (k', v') # map_put k v m)"

definition map_erase :: "u32 \<Rightarrow> (u32 \<times> 'v) list \<Rightarrow> (u32 \<times> 'v) list" where
  "map_erase k m = filter (\<lambda>kv. fst kv \<noteq> k) m"

fun set_insert :: "u32 \<Rightarrow> u32 list \<Rightarrow> u32 list" where
  "set_insert k [] = [k]"
| "set_insert k (k' # s) =
     (if k = k' then k' # s
      else if k < k' then k # k' # s
      else k' # set_insert k s)"

section \<open>The receiver (receiver.cpp)\<close>

type_synonym endpoint = "u32 \<times> u16"

type_synonym datagram = "endpoint \<times> u8 list"

text \<open>
  The output file is a collaborator: the model records the calls made on it, with the
  bytes handed to \<^verbatim>\<open>write\<close>.
\<close>

datatype file_op = Open "u8 list" | Write "u8 list" | Close

record Receiver =
  sender_addr :: endpoint
  state :: ConnectionState
  expected_seq :: u32
  recv_buffer :: "(u32 \<times> Packet) list"
  received_seqs :: "u32 list"
  output_file :: "file_op list"
  total_bytes_received :: "64 word"
  total_packets_received :: "64 word"
  client_locked :: bool
  client_addr :: endpoint
  transfer_counter :: int
  sent :: "(endpoint \<times> Packet) list"

text \<open>The constructor; \<open>sent\<close> is the log of the datagrams handed to \<^verbatim>\<open>sendto\<close>.\<close>

definition Receiver_init :: Receiver where
  "Receiver_init =
     \<lparr>sender_addr = (0, 0), state = CLOSED, expected_seq = 0, recv_buffer = [],
      received_seqs = [], output_file = [], total_bytes_received = 0,
      total_packets_received = 0, client_locked = False, client_addr = (0, 0),
      transfer_counter = 0, sent = []\<rparr>"

definition same_endpoint :: "endpoint \<Rightarrow> endpoint \<Rightarrow> bool" where
  "same_endpoint a b \<longleftrightarrow> fst a = fst b \<and> snd a = snd b"

text \<open>
  \<open>receive_packet\<close>: the argument is what \<^verbatim>\<open>recvfrom\<close> delivers, \<open>None\<close> when nothing is
  queued; \<^verbatim>\<open>recvfrom\<close> stores the source address in \<open>sender_addr\<close>. The result is the
  returned flag, the out-parameter \<open>packet\<close> and the receiver; \<open>None\<close> is an out-of-bounds
  access inside \<open>deserialize\<close>.
\<close>

definition receive_packet :: "datagram option \<Rightarrow> Packet \<Rightarrow> Receiver \<Rightarrow> (bool \<times> Packet \<times> Receiver) option" where
  "receive_packet dg packet r =
     (case dg of
        None \<Rightarrow> Some (False, packet, r)
      | Some (from, buffer) \<Rightarrow>
          (let r1 = r\<lparr>sender_addr := from\<rparr> in
           if 0 < length buffer then
             if client_locked r1 \<and> \<not> same_endpoint (sender_addr r1) (client_addr r1)
             then Some (False, packet, r1)
             else do {
               p \<leftarrow> deserialize buffer;
               Some (True, p, r1\<lparr>total_packets_received := total_packets_received r1 + 1\<rparr>) }
           else Some (False, packet, r1)))"

definition send_packet :: "Packet \<Rightarrow> Receiver \<Rightarrow> Receiver" where
  "send_packet packet r = r\<lparr>sent := sent r @ [(sender_addr r, packet)]\<rparr>"

definition handle_ack_handshake :: "Packet \<Rightarrow> Receiver \<Rightarrow> Receiver" where
  "handle_ack_handshake ack_packet r =
     (if state r = SYN_RECEIVED then
        if ack_num (header ack_packet) = 1 then r\<lparr>state := ESTABLISHED\<rparr> else r
      else r)"

definition handle_syn :: "Packet \<Rightarrow> Receiver \<Rightarrow> Receiver" where
  "handle_syn syn_packet r =
     (let r1 = (if \<not> client_locked r then r\<lparr>client_addr := sender_addr r, client_locked := True\<rparr> else r);
          syn_ack = Packet_init\<lparr>header := (header Packet_init)
                      \<lparr>type := SYN_ACK, seq_num := 0, ack_num := seq_num (header syn_packet) + 1\<rparr>\<rparr>;
          r2 = send_packet (set_checksum syn_ack) r1
      in r2\<lparr>expected_seq := seq_num (header syn_packet) + 1, state := SYN_RECEIVED\<rparr>)"

text \<open>The earlier revision (part_001) has no third handshake step.\<close>

definition handle_syn_old :: "Packet \<Rightarrow> Receiver \<Rightarrow> Receiver" where
  "handle_syn_old syn_packet r =
     (let r1 = (if \<not> client_locked r then r\<lparr>client_addr := sender_addr r, client_locked := True\<rparr> else r);
          syn_ack = Packet_init\<lparr>header := (header Packet_init)
                      \<lparr>type := SYN_ACK, ack_num := seq_num (header syn_packet) + 1\<rparr>\<rparr>;
          r2 = send_packet (set_checksum_old syn_ack) r1
      in r2\<lparr>expected_seq := seq_num (header syn_packet) + 1, state := ESTABLISHED\<rparr>)"

text \<open>The inner loop of \<open>send_ack\<close>: extend the run while the next element is \<open>right\<close>.\<close>

fun extend_run :: "u32 \<Rightarrow> u32 list \<Rightarrow> u32 \<times> u32 list" where
  "extend_run right [] = (right, [])"
| "extend_run right (x # xs) = (if x = right then extend_run (right + 1) xs else (right, x # xs))"

text \<open>The outer loop of \<open>send_ack\<close>, over the elements from \<open>it\<close> to the end of the set.\<close>

function build_sacks :: "u32 list \<Rightarrow> SACKBlock list \<Rightarrow> SACKBlock list" where
  "build_sacks [] sacks = sacks"
| "build_sacks (left # rest) sacks =
     (if length sacks < 3 then
        (case extend_run (left + 1) rest of
           (right, rest') \<Rightarrow> build_sacks rest' (sacks @ [\<lparr>left_edge = left, right_edge = right\<rparr>]))
      else sacks)"
  by pat_completeness auto
termination
proof (relation "measure (\<lambda>(xs, sacks). length xs)")
  show "wf (measure (\<lambda>(xs, sacks). length xs))" by simp
next
  fix left :: u32 and rest :: "u32 list" and sacks :: "SACKBlock list" and x y
  assume "length sacks < 3" and x: "(x, y) = extend_run (left + 1) rest"
  have "length (snd (extend_run r xs)) \<le> length xs" for r xs
    by (induction xs arbitrary: r) (auto intro: le_SucI)
  from this [of "left + 1" rest] x
  have "length y \<le> length rest" by (metis snd_conv)
  then show "((y, sacks @ [\<lparr>left_edge = left, right_edge = x\<rparr>]), left # rest, sacks)
             \<in> measure (\<lambda>(xs, sacks). length xs)"
    by simp
qed

definition send_ack :: "Receiver \<Rightarrow> Receiver" where
  "send_ack r =
     (let it = dropWhile (\<lambda>x. x \<le> expected_seq r) (received_seqs r);
          sacks = build_sacks it [];
          ack_packet = Packet_init\<lparr>header := (header Packet_init)
                         \<lparr>type := ACK, ack_num := expected_seq r, window_size := of_nat WINDOW_SIZE,
                          sack_count := of_nat (length sacks)\<rparr>,
                        sack_blocks := sacks\<rparr>
      in send_packet (set_checksum ack_packet) r)"

text \<open>
  The loop of \<open>handle_data\<close> that writes the in-order prefix of the buffer to the file.
  Every buffered packet has passed \<open>verify_checksum\<close>, so its \<open>data_length\<close> is within the
  array and \<^verbatim>\<open>write(pkt.data, pkt.header.data_length)\<close> writes the first \<open>data_length\<close> bytes.
\<close>

definition payload :: "Packet \<Rightarrow> u8 list" where
  "payload pkt = take (unat (data_length (header pkt))) (data pkt)"

function drain :: "Receiver \<Rightarrow> Receiver" where
  "drain r =
     (case map_of (recv_buffer r) (expected_seq r) of
        None \<Rightarrow> r
      | Some pkt \<Rightarrow>
          drain (r\<lparr>output_file := output_file r @ [Write (payload pkt)],
                   recv_buffer := map_erase (expected_seq r) (recv_buffer r),
                   expected_seq := expected_seq r + 1\<rparr>))"
  by pat_completeness auto
termination
proof (relation "measure (\<lambda>r. length (recv_buffer r))")
  show "wf (measure (\<lambda>r. length (recv_buffer r)))" by simp
next
  fix r :: Receiver and pkt
  assume a: "map_of (recv_buffer r) (expected_seq r) = Some pkt"
  have "map_of m k = Some v \<Longrightarrow> length (map_erase k m) < length m" for m :: "(u32 \<times> Packet) list" and k v
    by (induction m) (auto simp: map_erase_def less_Suc_eq_le split: if_splits)
  from this [OF a]
  show "(r\<lparr>output_file := output_file r @ [Write (payload pkt)],
            recv_buffer := map_erase (expected_seq r) (recv_buffer r),
            expected_seq := expected_seq r + 1\<rparr>, r) \<in> measure (\<lambda>r. length (recv_buffer r))"
    by simp
qed

declare drain.simps [simp del]

text \<open>
  \<open>send_ack\<close> and \<open>handle_data\<close> of the earlier revision (part_001): the checksum of the ACK is
  stored as \<open>calculate_checksum\<close> of the earlier protocol.h returns it, and \<open>handle_data\<close> has
  no state check.
\<close>

definition send_ack_old :: "Receiver \<Rightarrow> Receiver" where
  "send_ack_old r =
     (let it = dropWhile (\<lambda>x. x \<le> expected_seq r) (received_seqs r);
          sacks = build_sacks it [];
          ack_packet = Packet_init\<lparr>header := (header Packet_init)
                         \<lparr>type := ACK, ack_num := expected_seq r, window_size := of_nat WINDOW_SIZE,
                          sack_count := of_nat (length sacks)\<rparr>,
                        sack_blocks := sacks\<rparr>
      in send_packet (set_checksum_old ack_packet) r)"

definition handle_data_old :: "Packet \<Rightarrow> Receiver \<Rightarrow> Receiver" where
  "handle_data_old data_packet r =
     (let seq = seq_num (header data_packet);
          r1 = (if seq \<notin> set (received_seqs r) then
                  r\<lparr>recv_buffer := map_put seq data_packet (recv_buffer r),
                    received_seqs := set_insert seq (received_seqs r),
                    total_bytes_received := total_bytes_received r + ucast (data_length (header data_packet))\<rparr>
                else r)
      in send_ack_old (drain r1))"

definition handle_data :: "Packet \<Rightarrow> Receiver \<Rightarrow> Receiver" where
  "handle_data data_packet r =
     (if state r \<noteq> ESTABLISHED then r
      else
        let seq = seq_num (header data_packet);
            r1 = (if seq \<notin> set (received_seqs r) then
                    r\<lparr>recv_buffer := map_put seq data_packet (recv_buffer r),
                      received_seqs := set_insert seq (received_seqs r),
                      total_bytes_received := total_bytes_received r + ucast (data_length (header data_packet))\<rparr>
                  else r)
        in send_ack (drain r1))"

definition handle_fin :: "Packet \<Rightarrow> Receiver \<Rightarrow> Receiver" where
  "handle_fin fin_packet r =
     (let fin_ack = Packet_init\<lparr>header := (header Packet_init)
                      \<lparr>type := FIN_ACK, ack_num := seq_num (header fin_packet) + 1\<rparr>\<rparr>;
          r1 = send_packet (set_checksum fin_ack) r
      in r1\<lparr>state := CLOSED, output_file := output_file r1 @ [Close]\<rparr>)"

text \<open>
  The name of the output file: the part of the payload after the last \<^verbatim>\<open>/\<close> or \<^verbatim>\<open>\\<close>,
  with \<^verbatim>\<open>_output\<close> put before the last \<^verbatim>\<open>.\<close> of it.
\<close>

definition output_name :: "u8 list \<Rightarrow> u8 list" where
  "output_name orig =
     (let basename = rev (takeWhile (\<lambda>c. c \<noteq> 0x2F \<and> c \<noteq> 0x5C) (rev orig));
          tail = takeWhile (\<lambda>c. c \<noteq> 0x2E) (rev basename);
          has_dot = (0x2E \<in> set basename);
          ext = (if has_dot then 0x2E # rev tail else []);
          name_only = (if has_dot then take (length basename - length ext) basename else basename)
      in name_only @ [0x5F, 0x6F, 0x75, 0x74, 0x70, 0x75, 0x74] @ ext)"

definition handle_file_name :: "Packet \<Rightarrow> Receiver \<Rightarrow> Receiver" where
  "handle_file_name name_packet r =
     (if state r \<noteq> ESTABLISHED then r
      else
        let r1 = (if 0 < unat (data_length (header name_packet)) then
                    let len = min (unat (data_length (header name_packet))) MAX_DATA_SIZE;
                        orig = take len (data name_packet)
                    in r\<lparr>output_file := output_file r @ [Open (output_name orig)]\<rparr>
                  else r\<lparr>output_file := output_file r @ [Open [0x6F, 0x75, 0x74, 0x70, 0x75, 0x74]]\<rparr>);
            file_name_ack = Packet_init\<lparr>header := (header Packet_init)
                              \<lparr>type := FILE_NAME_ACK, ack_num := seq_num (header name_packet) + 1\<rparr>\<rparr>
        in send_packet (set_checksum file_name_ack) r1)"

definition handle_packet :: "Packet \<Rightarrow> Receiver \<Rightarrow> Receiver" where
  "handle_packet packet r =
     (if type (header packet) = SYN then handle_syn packet r
      else if type (header packet) = ACK then handle_ack_handshake packet r
      else if type (header packet) = FILE_NAME then handle_file_name packet r
      else if type (header packet) = DATA then handle_data packet r
      else if type (header packet) = FIN then handle_fin packet r
      else r)"

text \<open>
  One iteration of the loop of \<open>run\<close>: \<open>Break\<close> when the loop is left, \<open>Continue\<close> when it
  goes round again; \<open>None\<close> when \<open>deserialize\<close> or \<open>calculate_checksum\<close> leave an array.
\<close>

datatype loop = Continue Receiver | Break Receiver

definition run_iter :: "datagram option \<Rightarrow> Receiver \<Rightarrow> loop option" where
  "run_iter dg r =
     do {
       (received, packet, r1) \<leftarrow> receive_packet dg Packet_init r;
       if received then
         do {
           ok \<leftarrow> verify_checksum packet;
           if \<not> ok then Some (Continue r1)
           else
             let r2 = handle_packet packet r1 in
             if state r2 = CLOSED then Some (Break r2)
             else Some (Continue (r2\<lparr>transfer_counter := transfer_counter r2 + 1\<rparr>))
         }
       else Some (Continue r1)
     }"

text \<open>\<open>run\<close> on the datagrams of the successive iterations; the loop may also go on for ever.\<close>

fun run :: "datagram option list \<Rightarrow> Receiver \<Rightarrow> loop option" where
  "run [] r = Some (Continue r)"
| "run (dg # dgs) r =
     (case run_iter dg r of
        Some (Continue r') \<Rightarrow> run dgs r'
      | other \<Rightarrow> other)"

section \<open>The sender (sender.cpp)\<close>

text \<open>
  The fields of \<^verbatim>\<open>class Sender\<close> that the transfer uses; \<open>snd_seq_num\<close> is its field
  \<^verbatim>\<open>seq_num\<close>. The member \<^verbatim>\<open>receiver_window\<close> is declared and never mentioned again.
  Times are in milliseconds. \<open>cwnd\<close> is a \<^verbatim>\<open>double\<close>: the model computes with real
  numbers, without the rounding of \<^verbatim>\<open>cwnd += 1.0 / cwnd\<close>. \<open>wire\<close> is the log of the
  packets handed to \<^verbatim>\<open>sendto\<close>.
\<close>

record Sender =
  snd_seq_num :: u32
  base :: u32
  next_seq_num :: u32
  sent_packets :: "(u32 \<times> Packet) list"
  send_times :: "(u32 \<times> int) list"
  cong_state :: CongestionState
  cwnd :: real
  ssthresh :: u32
  duplicate_acks :: u32
  last_acked :: u32
  total_bytes_sent :: "64 word"
  total_packets_sent :: "64 word"
  retransmissions :: "64 word"
  wire :: "Packet list"

text \<open>The state that the constructor and a successful \<open>connect\<close> leave.\<close>

definition Sender_connected :: Sender where
  "Sender_connected =
     \<lparr>snd_seq_num = 1, base = 1, next_seq_num = 1, sent_packets = [], send_times = [],
      cong_state = SLOW_START, cwnd = 1, ssthresh = of_nat WINDOW_SIZE, duplicate_acks = 0,
      last_acked = 0, total_bytes_sent = 0, total_packets_sent = 0, retransmissions = 0,
      wire = []\<rparr>"

definition Sender_send_packet :: "Packet \<Rightarrow> Sender \<Rightarrow> Sender" where
  "Sender_send_packet packet s =
     s\<lparr>wire := wire s @ [packet],
       total_packets_sent := total_packets_sent s + 1,
       total_bytes_sent := total_bytes_sent s
          + of_nat (HEADER_SIZE + unat (data_length (header packet)) + 8 * length (sack_blocks packet))\<rparr>"

text \<open>
  \<^verbatim>\<open>static_cast<uint32_t>\<close> of a non-negative \<^verbatim>\<open>double\<close>: the integer part. (The conversion is
  undefined from \<open>2 ^ 32\<close> on, which \<open>cwnd\<close> reaches only after that many duplicate ACKs.)
\<close>

definition to_u32 :: "real \<Rightarrow> u32" where
  "to_u32 x = of_int \<lfloor>x\<rfloor>"

definition window_limit :: "Sender \<Rightarrow> u32" where
  "window_limit s = min (to_u32 (cwnd s)) (of_nat WINDOW_SIZE)"

text \<open>
  The body of the inner loop of \<open>send_file\<close>: build the DATA packet for \<open>next_seq_num\<close> from
  the file, send and record it. \<open>pkt_offset\<close> is computed in 32 bits.
\<close>

definition send_new :: "u8 list \<Rightarrow> int \<Rightarrow> Sender \<Rightarrow> Sender" where
  "send_new file_data now s =
     (let pkt_offset = unat ((next_seq_num s - snd_seq_num s) * of_nat MAX_DATA_SIZE);
          pkt_size = min MAX_DATA_SIZE (length file_data - pkt_offset);
          packet = Packet_init
            \<lparr>header := (header Packet_init)
               \<lparr>type := DATA, seq_num := next_seq_num s, data_length := of_nat pkt_size\<rparr>,
             data := take pkt_size (drop pkt_offset file_data) @ drop pkt_size (data Packet_init)\<rparr>;
          packet = set_checksum packet;
          s1 = Sender_send_packet packet s
      in s1\<lparr>sent_packets := map_put (next_seq_num s) packet (sent_packets s1),
            send_times := map_put (next_seq_num s) now (send_times s1),
            next_seq_num := next_seq_num s + 1\<rparr>)"

text \<open>The condition of that loop, for the window limit computed before it.\<close>

definition may_send :: "u32 \<Rightarrow> u32 \<Rightarrow> Sender \<Rightarrow> bool" where
  "may_send total_packets limit s \<longleftrightarrow>
     next_seq_num s < base s + limit \<and> next_seq_num s < snd_seq_num s + total_packets"



text \<open>
  The loop of \<open>handle_ack\<close> that removes the acknowledged packets: it walks \<open>sent_packets\<close>
  from its least key while the key is below \<open>base\<close>.
\<close>

fun erase_acked :: "u32 \<Rightarrow> (u32 \<times> Packet) list \<Rightarrow> (u32 \<times> int) list
                    \<Rightarrow> (u32 \<times> Packet) list \<times> (u32 \<times> int) list" where
  "erase_acked b [] stamps = ([], stamps)"
| "erase_acked b ((k, p) # packets) stamps =
     (if k < b then erase_acked b packets (map_erase k stamps) else ((k, p) # packets, stamps))"

text \<open>The inner loop over one SACK block, \<^verbatim>\<open>for (seq = left_edge; seq < right_edge; ++seq)\<close>.\<close>

function sack_erase :: "u32 \<Rightarrow> u32 \<Rightarrow> Sender \<Rightarrow> Sender" where
  "sack_erase seq right s =
     (if seq < right
      then sack_erase (seq + 1) right
             (s\<lparr>sent_packets := map_erase seq (sent_packets s),
                send_times := map_erase seq (send_times s)\<rparr>)
      else s)"
  by pat_completeness auto
termination
proof (relation "measure (\<lambda>(seq, right, s). unat right - unat seq)")
  show "wf (measure (\<lambda>(seq, right, s). unat right - unat seq))"
    by simp
next
  fix seq right :: u32 and s :: Sender
  assume lt: "seq < right"
  then have "unat seq < unat right"
    by (simp add: word_less_nat_alt)
  moreover have "unat (seq + 1) = unat seq + 1"
  proof -
    have "unat seq < unat right"
      using lt by (simp add: word_less_nat_alt)
    moreover have "unat right < 2 ^ 32"
      using unsigned_less [of right, where 'a = nat] by simp
    ultimately have "unat seq + unat (1 :: u32) < 2 ^ LENGTH(32)"
      by simp
    then have "unat (seq + 1) = unat seq + unat (1 :: u32)"
      by (simp only: unat_add_lem [THEN iffD1])
    then show ?thesis by simp
  qed
  ultimately show "((seq + 1, right, s\<lparr>sent_packets := map_erase seq (sent_packets s),
                send_times := map_erase seq (send_times s)\<rparr>), seq, right, s)
       \<in> measure (\<lambda>(seq, right, s). unat right - unat seq)"
    by simp
qed

declare sack_erase.simps [simp del]

definition process_sacks :: "SACKBlock list \<Rightarrow> Sender \<Rightarrow> Sender" where
  "process_sacks sacks s = foldl (\<lambda>s sack. sack_erase (left_edge sack) (right_edge sack) s) s sacks"

text \<open>
  \<open>handle_ack\<close>. The two revisions differ in one constant, the count of duplicate ACKs
  that starts the fast retransmit: \<^verbatim>\<open>duplicate_acks == 2\<close> in the current revision
  (sender.cpp line 514, under the comment "fast retransmit: 3 duplicate ACKs received"),
  \<^verbatim>\<open>duplicate_acks == 3\<close> in the earlier one (line 1028).
\<close>

definition handle_ack_at :: "u32 \<Rightarrow> Packet \<Rightarrow> Sender \<Rightarrow> Sender" where
  "handle_ack_at trigger ack_packet s =
     (let ack = ack_num (header ack_packet);
          s1 =
            (if base s < ack then
               let s = s\<lparr>base := ack, duplicate_acks := 0\<rparr>;
                   s = (if cong_state s = SLOW_START then
                          let s = s\<lparr>cwnd := cwnd s + 1\<rparr>
                          in if real (unat (ssthresh s)) \<le> cwnd s
                             then s\<lparr>cong_state := CONGESTION_AVOIDANCE\<rparr> else s
                        else if cong_state s = CONGESTION_AVOIDANCE then
                          s\<lparr>cwnd := cwnd s + 1 / cwnd s\<rparr>
                        else if cong_state s = FAST_RECOVERY then
                          s\<lparr>cwnd := real (unat (ssthresh s)), cong_state := CONGESTION_AVOIDANCE\<rparr>
                        else s);
                   (packets, stamps) = erase_acked (base s) (sent_packets s) (send_times s)
               in s\<lparr>sent_packets := packets, send_times := stamps, last_acked := ack\<rparr>
             else if ack = last_acked s then
               let s = s\<lparr>duplicate_acks := duplicate_acks s + 1\<rparr>
               in if duplicate_acks s = trigger then
                    (case map_of (sent_packets s) ack of
                       Some packet \<Rightarrow>
                         let s = Sender_send_packet packet s;
                             s = s\<lparr>retransmissions := retransmissions s + 1\<rparr>;
                             s = s\<lparr>ssthresh := max (to_u32 (cwnd s / 2)) 2\<rparr>;
                             s = s\<lparr>cwnd := real (unat (ssthresh s + 3))\<rparr>
                         in s\<lparr>cong_state := FAST_RECOVERY\<rparr>
                     | None \<Rightarrow> s)
                  else if trigger < duplicate_acks s \<and> cong_state s = FAST_RECOVERY then
                    s\<lparr>cwnd := cwnd s + 1\<rparr>
                  else s
             else s)
      in process_sacks (sack_blocks ack_packet) s1)"

definition handle_ack :: "Packet \<Rightarrow> Sender \<Rightarrow> Sender" where
  "handle_ack = handle_ack_at 2"

definition handle_ack_old :: "Packet \<Rightarrow> Sender \<Rightarrow> Sender" where
  "handle_ack_old = handle_ack_at 3"

text \<open>
  \<open>check_timeout\<close>: the loop visits the entries of \<open>send_times\<close> in key order; it changes
  the time of the entry it visits and no key.
\<close>

definition timeout_entry :: "int \<Rightarrow> u32 \<times> int \<Rightarrow> Sender \<Rightarrow> Sender" where
  "timeout_entry now entry s =
     (let elapsed = now - snd entry in
      if elapsed > TIMEOUT_MS then
        (case map_of (sent_packets s) (fst entry) of
           Some packet \<Rightarrow>
             let s = Sender_send_packet packet s;
                 s = s\<lparr>retransmissions := retransmissions s + 1\<rparr>;
                 s = s\<lparr>send_times := map_put (fst entry) now (send_times s)\<rparr>;
                 s = s\<lparr>ssthresh := max (to_u32 (cwnd s / 2)) 2\<rparr>
             in s\<lparr>cwnd := 1, cong_state := SLOW_START, duplicate_acks := 0\<rparr>
         | None \<Rightarrow> s)
      else s)"

definition check_timeout :: "int \<Rightarrow> Sender \<Rightarrow> Sender" where
  "check_timeout now s = foldl (\<lambda>s entry. timeout_entry now entry s) s (send_times s)"



text \<open>\<^verbatim>\<open>uint32_t total_packets = (file_size + MAX_DATA_SIZE - 1) / MAX_DATA_SIZE\<close>\<close>

definition total_packets_of :: "u8 list \<Rightarrow> u32" where
  "total_packets_of file_data = of_nat ((length file_data + MAX_DATA_SIZE - 1) div MAX_DATA_SIZE)"

text \<open>
  The steps of a transfer, one at a time: one pass through the inner loop of \<open>send_file\<close>,
  one ACK that has passed \<^verbatim>\<open>type == ACK && verify_checksum()\<close>, one \<open>check_timeout\<close>. Every
  state of \<open>send_file\<close> is the result of a sequence of such steps. \<open>trigger\<close> is the constant
  of \<open>handle_ack\<close>.
\<close>

datatype sender_event = Send_new int | Recv_ack Packet | Timeout_scan int

definition sender_step :: "u32 \<Rightarrow> u8 list \<Rightarrow> sender_event \<Rightarrow> Sender \<Rightarrow> Sender" where
  "sender_step trigger file_data ev s =
     (case ev of
        Send_new now \<Rightarrow>
          if may_send (total_packets_of file_data) (window_limit s) s
          then send_new file_data now s else s
      | Recv_ack ack_packet \<Rightarrow> handle_ack_at trigger ack_packet s
      | Timeout_scan now \<Rightarrow> check_timeout now s)"

definition sender_run :: "u32 \<Rightarrow> u8 list \<Rightarrow> sender_event list \<Rightarrow> Sender \<Rightarrow> Sender" where
  "sender_run trigger file_data evs s = foldl (\<lambda>s ev. sender_step trigger file_data ev s) s evs"

subsection \<open>Auxiliary notions for the receiver\<close>





text \<open>Concrete inputs: a SYN and a FIN datagram of the current revision, a handshake ACK,
  DATA packets of one payload byte and a receiver with an established connection.\<close>

definition syn_bytes :: "u8 list" where
  "syn_bytes = [0x01, 0x00, 0xFE, 0xFF, 0, 0, 0, 0, 0, 0, 0, 0, 0, 0, 0, 0, 0, 0, 0, 0]"

definition syn_packet :: Packet where
  "syn_packet = Packet_init\<lparr>header := PacketHeader_init\<lparr>type := SYN, checksum := 0xFFFE\<rparr>\<rparr>"

definition fin_bytes :: "u8 list" where
  "fin_bytes = [0x05, 0x00, 0xF7, 0xFF, 3, 0, 0, 0, 0, 0, 0, 0, 0, 0, 0, 0, 0, 0, 0, 0]"

definition fin_packet :: Packet where
  "fin_packet = Packet_init\<lparr>header := PacketHeader_init\<lparr>type := FIN, checksum := 0xFFF7, seq_num := 3\<rparr>\<rparr>"

definition ack_one :: Packet where
  "ack_one = Packet_init\<lparr>header := PacketHeader_init\<lparr>type := ACK, ack_num := 1\<rparr>\<rparr>"

definition data_packet :: "u32 \<Rightarrow> u8 \<Rightarrow> Packet" where
  "data_packet k b =
     \<lparr>header = PacketHeader_init\<lparr>type := DATA, seq_num := k, data_length := 1\<rparr>,
      data = b # replicate 1023 0, sack_blocks = []\<rparr>"

definition established :: Receiver where
  "established = Receiver_init\<lparr>state := ESTABLISHED, expected_seq := 1\<rparr>"

subsection \<open>Auxiliary notions for the sender\<close>

text \<open>\<open>k\<close> lies in one of the half-open SACK blocks; the window invariant of the sender.\<close>

definition in_sacks :: "SACKBlock list \<Rightarrow> u32 \<Rightarrow> bool" where
  "in_sacks sacks k \<longleftrightarrow> (\<exists>b \<in> set sacks. left_edge b \<le> k \<and> k < right_edge b)"

definition snd_inv :: "Sender \<Rightarrow> bool" where
  "snd_inv s \<longleftrightarrow>
     base s \<le> next_seq_num s \<and>
     unat (next_seq_num s) \<le> unat (base s) + WINDOW_SIZE \<and>
     sorted_wrt (<) (map fst (sent_packets s)) \<and>
     (\<forall>k \<in> set (map fst (sent_packets s)). base s \<le> k \<and> k < next_seq_num s)"

text \<open>
  A sequence of steps in which every ACK acknowledges only what has been transmitted:
  \<open>ack_num\<close> is at most \<open>next_seq_num\<close> when the ACK is handled.
\<close>

fun acks_in_range :: "u32 \<Rightarrow> u8 list \<Rightarrow> sender_event list \<Rightarrow> Sender \<Rightarrow> bool" where
  "acks_in_range trigger file_data [] s = True"
| "acks_in_range trigger file_data (ev # evs) s =
     ((case ev of Recv_ack a \<Rightarrow> ack_num (header a) \<le> next_seq_num s | _ \<Rightarrow> True)
      \<and> acks_in_range trigger file_data evs (sender_step trigger file_data ev s))"

text \<open>
  Concrete inputs: an ACK as the receiver builds it; a transfer of a file of 3000 zero bytes
  in which the first packet is acknowledged, two more are sent and both time out; a sender
  that has seen one duplicate of the ACK for sequence 5.
\<close>

definition ack_packet_for :: "u32 \<Rightarrow> Packet" where
  "ack_packet_for k = Packet_init\<lparr>header := PacketHeader_init\<lparr>type := ACK, ack_num := k, window_size := 16\<rparr>\<rparr>"

definition shrink_events :: "sender_event list" where
  "shrink_events = [Send_new 0, Recv_ack (ack_packet_for 2), Send_new 10, Send_new 10, Timeout_scan 2000]"

definition shrink_state :: Sender where
  "shrink_state = sender_run 2 (replicate 3000 0) shrink_events Sender_connected"

definition dup_state :: Sender where
  "dup_state = Sender_connected
     \<lparr>base := 5, next_seq_num := 7, last_acked := 5, duplicate_acks := 1, cwnd := 4,
      sent_packets := [(5, data_packet 5 0x61), (6, data_packet 6 0x62)],
      send_times := [(5, 0), (6, 0)]\<rparr>"

text \<open>
  Every packet that the sender keeps for retransmission is stored under its own sequence
  number. A sequence number is retired when it has been sent and is no longer stored.
\<close>

definition stored_ok :: "Sender \<Rightarrow> bool" where
  "stored_ok s \<longleftrightarrow> (\<forall>kv \<in> set (sent_packets s). seq_num (header (snd kv)) = fst kv)"

definition retired :: "u32 \<Rightarrow> Sender \<Rightarrow> bool" where
  "retired k s \<longleftrightarrow> k < next_seq_num s \<and> k \<notin> fst ` set (sent_packets s) \<and> stored_ok s"

text \<open>A run that puts sequences 2 and 3 in flight, and an ACK that selectively confirms 3.\<close>

definition sack_events :: "sender_event list" where
  "sack_events = [Send_new 0, Recv_ack (ack_packet_for 2), Send_new 10, Send_new 10]"

definition sack_packet :: Packet where
  "sack_packet = (ack_packet_for 2)
     \<lparr>header := (header (ack_packet_for 2))\<lparr>sack_count := 1\<rparr>,
      sack_blocks := [\<lparr>left_edge = 3, right_edge = 4\<rparr>]\<rparr>"








subsection \<open>Auxiliary notions for short buffers\<close>


text \<open>The \<open>m\<close> SACK blocks stored in the buffer from offset \<open>off\<close> on.\<close>

definition sacks_at :: "u8 list \<Rightarrow> nat \<Rightarrow> nat \<Rightarrow> SACKBlock list" where
  "sacks_at buf off m = map (\<lambda>i. sack_of_bytes (take 8 (drop (off + 8 * i) buf))) [0..<m]"






subsection \<open>Auxiliary notions for damaged buffers\<close>

text \<open>The byte \<open>x\<close> with bit \<open>j\<close> inverted.\<close>

definition flip :: "nat \<Rightarrow> u8 \<Rightarrow> u8" where
  "flip j x = x XOR push_bit j 1"

text \<open>
  A DATA packet with sequence number 1 and the two payload bytes \<open>FD FF\<close>, with the checksum
  field \<open>c\<close>; and its 22 bytes on the wire, with the bytes of the checksum field and the low
  byte of \<open>data_length\<close> left open.
\<close>

definition flip_packet :: "u16 \<Rightarrow> Packet" where
  "flip_packet c =
     \<lparr>header = PacketHeader_init\<lparr>type := DATA, checksum := c, seq_num := 1, data_length := 2\<rparr>,
      data = [0xFD, 0xFF] @ replicate 1022 0, sack_blocks = []\<rparr>"

definition flip_bytes :: "u8 \<Rightarrow> u8 \<Rightarrow> u8 \<Rightarrow> u8 list" where
  "flip_bytes c0 c1 n = [0x03, 0x00, c0, c1, 1, 0, 0, 0, 0, 0, 0, 0, 0, 0, n, 0, 0, 0, 0, 0, 0xFD, 0xFF]"


section \<open>Properties of the codec\<close>

lemma le16_join: "ucast (ucast w :: u8) OR push_bit 8 (ucast (ucast (drop_bit 8 w) :: u8)) = (w :: u16)"
  by (rule bit_word_eqI) (auto simp: bit_simps)

lemma le32_join:
  "ucast (ucast w :: u8) OR push_bit 8 (ucast (ucast (drop_bit 8 w) :: u8))
   OR push_bit 16 (ucast (ucast (drop_bit 16 w) :: u8)) OR push_bit 24 (ucast (ucast (drop_bit 24 w) :: u8))
   = (w :: u32)"
proof (rule bit_word_eqI)
  fix n :: nat
  assume "n < LENGTH(32)"
  then consider "n < 8" | "8 \<le> n" "n < 16" | "16 \<le> n" "n < 24" | "24 \<le> n" "n < 32"
    by fastforce
  then show "bit (ucast (ucast w :: u8) OR push_bit 8 (ucast (ucast (drop_bit 8 w) :: u8))
      OR push_bit 16 (ucast (ucast (drop_bit 16 w) :: u8))
      OR push_bit 24 (ucast (ucast (drop_bit 24 w) :: u8)) :: u32) n = bit w n"
    by cases (auto simp: bit_simps)
qed

lemma header_of_bytes_header_bytes: "header_of_bytes (header_bytes h) = h"
  by (simp add: header_of_bytes_def header_bytes_def le16_def le32_def u16_at_def u32_at_def
      le16_join le32_join)

lemma length_header_bytes: "length (header_bytes h) = 20"
  by (simp add: header_bytes_def le16_def le32_def)

lemma length_sack_bytes: "length (sack_bytes b) = 8"
  by (simp add: sack_bytes_def le32_def)

lemma sack_of_bytes_sack_bytes: "sack_of_bytes (sack_bytes b) = b"
  by (simp add: sack_of_bytes_def sack_bytes_def le32_def u32_at_def le32_join)

lemma deserialize_sacks_concat:
  "deserialize_sacks (length bl) (pre @ concat (map sack_bytes bl)) (length pre) acc = Some (acc @ bl)"
proof (induction bl arbitrary: pre acc)
  case Nil
  then show ?case by simp
next
  case (Cons b bl)
  have "deserialize_sacks (length bl) ((pre @ sack_bytes b) @ concat (map sack_bytes bl)) (length (pre @ sack_bytes b)) (acc @ [b])
        = Some ((acc @ [b]) @ bl)"
    by (rule Cons.IH)
  then show ?case
    by (simp add: buf_read_def length_sack_bytes sack_of_bytes_sack_bytes)
qed

lemma deserialize_serialize:
  assumes "well_formed p"
  shows "\<exists>b. serialize p = Some b \<and>
           deserialize b = Some \<lparr>header = header p,
               data = take (unat (data_length (header p))) (data p)
                      @ replicate (MAX_DATA_SIZE - unat (data_length (header p))) 0,
               sack_blocks = sack_blocks p\<rparr>"
proof -
  let ?n = "unat (data_length (header p))"
  let ?hb = "header_bytes (header p)"
  let ?b = "?hb @ take ?n (data p) @ concat (map sack_bytes (sack_blocks p))"
  from assms have len: "length (data p) = 1024" and n: "?n \<le> 1024"
    and sc: "unat (sack_count (header p)) = length (sack_blocks p)"
    by (simp_all add: well_formed_def)
  have ser: "serialize p = Some ?b"
    using len n by (simp add: serialize_def Let_def)
  have hd: "buf_read ?b 0 20 = Some ?hb"
    by (simp add: buf_read_def length_header_bytes)
  have sacks: "deserialize_sacks (length (sack_blocks p)) ?b (20 + ?n) [] = Some (sack_blocks p)"
    using deserialize_sacks_concat [of "sack_blocks p" "?hb @ take ?n (data p)" "[]"] len n
    by (simp add: length_header_bytes)
  have sacks0: "?n = 0 \<Longrightarrow> deserialize_sacks (length (sack_blocks p)) ?b 20 [] = Some (sack_blocks p)"
    using sacks by simp
  have pay: "buf_read ?b 20 ?n = Some (take ?n (data p))"
    using len n by (simp add: buf_read_def length_header_bytes)
  have aw: "array_write (data Packet_init) (take ?n (data p)) = Some (take ?n (data p) @ replicate (1024 - ?n) 0)"
    using len n by (simp add: array_write_def Packet_init_def)
  have "deserialize ?b = Some \<lparr>header = header p,
               data = take ?n (data p) @ replicate (1024 - ?n) 0, sack_blocks = sack_blocks p\<rparr>"
  proof (cases "?n = 0")
    case True
    then show ?thesis
      using hd sacks0 sc
      by (simp add: deserialize_def length_header_bytes header_of_bytes_header_bytes Packet_init_def)
  next
    case False
    then show ?thesis
      using hd sacks sc pay aw len n
      by (simp add: deserialize_def length_header_bytes header_of_bytes_header_bytes Let_def)
  qed
  with ser show ?thesis by simp
qed

lemma be16: "push_bit 8 (unat (a::u8)) OR unat (b::u8) = 256 * unat a + unat b"
proof -
  have "push_bit 8 (unat a) + unat b = push_bit 8 (unat a) OR unat b"
    by (rule disjunctive_add) (auto simp: bit_simps dest: bit_imp_le_length)
  then show ?thesis by (simp add: push_bit_eq_mult)
qed

lemma add_words_wsum: "add_words s bs mod 2 ^ 32 = (s + wsum bs) mod 2 ^ 32"
proof (induction s bs rule: add_words.induct)
  case (1 s)
  then show ?case by simp
next
  case (2 s a)
  then show ?case by (simp add: push_bit_eq_mult mult.commute)
next
  case (3 s a b bs)
  have "add_words s (a # b # bs) mod 2 ^ 32 = ((s + (256 * unat a + unat b)) mod 2 ^ 32 + wsum bs) mod 2 ^ 32"
    using 3 by (simp add: be16)
  also have "\<dots> = (s + (256 * unat a + unat b) + wsum bs) mod 2 ^ 32"
    by (rule mod_add_left_eq)
  finally show ?case by (simp add: add.assoc)
qed

lemma add_words_less: "s < 2 ^ 32 \<Longrightarrow> add_words s bs < 2 ^ 32"
  by (induction s bs rule: add_words.induct) simp_all

lemma add_words_eq: "s < 2 ^ 32 \<Longrightarrow> add_words s bs = (s + wsum bs) mod 2 ^ 32"
  using add_words_wsum [of s bs] add_words_less [of s bs] by simp

lemma add_sacks_eq: "s < 2 ^ 32 \<Longrightarrow> add_sacks s bl = (s + sacks_sum bl) mod 2 ^ 32"
proof (induction bl arbitrary: s)
  case Nil
  then show ?case by (simp add: add_sacks_def sacks_sum_def)
next
  case (Cons b bl)
  have "add_sacks s (b # bl) = add_sacks (add_words s (sack_bytes b)) bl"
    by (simp add: add_sacks_def)
  also have "\<dots> = (add_words s (sack_bytes b) + sacks_sum bl) mod 2 ^ 32"
    using Cons.IH [OF add_words_less [OF Cons.prems]] .
  also have "\<dots> = ((s + wsum (sack_bytes b)) mod 2 ^ 32 + sacks_sum bl) mod 2 ^ 32"
    using add_words_eq [OF Cons.prems] by simp
  also have "\<dots> = (s + wsum (sack_bytes b) + sacks_sum bl) mod 2 ^ 32"
    by (rule mod_add_left_eq)
  finally show ?case by (simp add: sacks_sum_def add.assoc)
qed

lemma and_ffff: "(s::nat) AND 0xFFFF = s mod 65536"
proof -
  have "s AND mask 16 = s mod 2 ^ 16"
    by (simp only: flip: take_bit_eq_mask take_bit_eq_mod)
  then show ?thesis
    by (simp add: mask_eq_exp_minus_1)
qed

lemma fold_carry_small: "s < 65536 \<Longrightarrow> fold_carry s = s"
  by (subst fold_carry.simps) (simp add: drop_bit_eq_div)

lemma fold_carry_step:
  assumes "65536 \<le> s" "s < 2 ^ 32"
  shows "fold_carry s = fold_carry (s mod 65536 + s div 65536)"
proof -
  have "s div 65536 \<noteq> 0" using assms(1) by simp
  moreover have "s div 65536 \<le> s" by (rule div_le_dividend)
  moreover have "s mod 65536 < 65536" by simp
  ultimately have "s mod 65536 + s div 65536 < 2 ^ 32 + 65536"
    using assms(2) by linarith
  moreover have "s div 65536 < 65536"
    using assms(2) by (simp add: less_mult_imp_div_less)
  ultimately have "s mod 65536 + s div 65536 < 2 ^ 32"
    using \<open>s mod 65536 < 65536\<close> by simp
  then have "(s mod 65536 + s div 65536) mod 2 ^ 32 = s mod 65536 + s div 65536"
    by (rule mod_less)
  with \<open>s div 65536 \<noteq> 0\<close> show ?thesis
    by (subst fold_carry.simps) (simp only: drop_bit_eq_div and_ffff power_numeral_reduce if_True simp_thms, simp)
qed

lemma div_mod_once: "b \<le> a \<Longrightarrow> a < b + b \<Longrightarrow> 0 < b \<Longrightarrow> a div b = 1 \<and> a mod b = a - (b::nat)"
  by (simp add: le_div_geq le_mod_geq)

lemma mod_65535_shift: "r < 65535 \<Longrightarrow> (65535 * k + r) mod 65535 = (r::nat)"
  by simp

lemma fc_caseB:
  assumes "s = 65536 * d + m" "m < 65536" "d < 65536" "d \<noteq> 0" "m + d < 65536"
      and f1: "fold_carry s = fold_carry (m + d)"
  shows "fold_carry s = (s - 1) mod 65535 + 1"
proof -
  have "m + d - 1 < 65535" using assms(4,5) by linarith
  moreover have "s - 1 = 65535 * d + (m + d - 1)" using assms(1,4) by linarith
  ultimately have "(s - 1) mod 65535 = m + d - 1"
    by (simp only: mod_65535_shift)
  moreover have "fold_carry (m + d) = m + d" using assms(5) by (rule fold_carry_small)
  ultimately show ?thesis using f1 assms(4) by linarith
qed

lemma fc_caseC:
  assumes s: "s = 65536 * d + m" and m: "m < 65536" and d: "d < 65536" and ge: "65536 \<le> m + d"
      and f1: "fold_carry s = fold_carry (m + d)"
  shows "fold_carry s = (s - 1) mod 65535 + 1"
proof -
  have lt: "m + d < 2 ^ 32" using m d by simp
  have "m + d < 65536 + 65536" using m d by linarith
  with ge have dm: "(m + d) div 65536 = 1 \<and> (m + d) mod 65536 = m + d - 65536"
    by (intro div_mod_once) simp_all
  have f2: "fold_carry (m + d) = fold_carry (m + d - 65536 + 1)"
    using fold_carry_step [OF ge lt] dm by simp
  have "m + d - 65536 + 1 < 65536" using m d by linarith
  then have f3: "fold_carry (m + d - 65536 + 1) = m + d - 65536 + 1" by (rule fold_carry_small)
  have "65535 * (d + 1) = 65535 * d + 65535" by (simp only: distrib_left mult_1_right)
  then have "s - 1 = 65535 * (d + 1) + (m + d - 65536)" using s ge by linarith
  moreover have "m + d - 65536 < 65535" using m d by linarith
  ultimately have "(s - 1) mod 65535 = m + d - 65536"
    by (simp only: mod_65535_shift)
  then show ?thesis using f1 f2 f3 by linarith
qed

lemma fold_carry_char:
  assumes "s < 2 ^ 32" "s \<noteq> 0"
  shows "fold_carry s = (s - 1) mod 65535 + 1"
proof -
  define d m where "d = s div 65536" and "m = s mod 65536"
  have s: "s = 65536 * d + m" and m: "m < 65536"
    by (simp_all add: d_def m_def)
  have d: "d < 65536"
    using assms(1) by (simp add: d_def less_mult_imp_div_less)
  show ?thesis
  proof (cases "d = 0")
    case True
    then have small: "s < 65536" using s m by simp
    then have "s - 1 < 65535" using assms(2) by linarith
    then have "(s - 1) mod 65535 = s - 1" by (rule mod_less)
    then show ?thesis using fold_carry_small [OF small] assms(2) by linarith
  next
    case False
    then have big: "65536 \<le> s" using s by linarith
    have f1: "fold_carry s = fold_carry (m + d)"
      unfolding d_def m_def using big assms(1) by (rule fold_carry_step)
    show ?thesis
    proof (cases "m + d < 65536")
      case True
      with s m d False show ?thesis using f1 by (rule fc_caseB)
    next
      case False
      then have "65536 \<le> m + d" by simp
      with s m d show ?thesis using f1 by (rule fc_caseC)
    qed
  qed
qed

lemma fold_carry_le: "s < 2 ^ 32 \<Longrightarrow> fold_carry s \<le> 65535"
proof (cases "s = 0")
  case True
  then show ?thesis by (simp add: fold_carry_small)
next
  case False
  assume "s < 2 ^ 32"
  then have "fold_carry s = (s - 1) mod 65535 + 1" using False by (rule fold_carry_char)
  moreover have "(s - 1) mod 65535 < 65535" by simp
  ultimately show ?thesis by linarith
qed

lemma fold_carry_complement:
  assumes "s < 2 ^ 32"
  shows "(s + (65535 - fold_carry s)) < 2 ^ 32 \<and> fold_carry (s + (65535 - fold_carry s)) = 65535"
proof (cases "s = 0")
  case True
  then show ?thesis by (simp add: fold_carry_small)
next
  case False
  define r where "r = (s - 1) mod 65535"
  define q where "q = (s - 1) div 65535"
  have r: "r < 65535" by (simp add: r_def)
  have "s - 1 = 65535 * q + r"
    by (simp add: r_def q_def)
  then have s: "s = 65535 * q + r + 1" using False by linarith
  have fc: "fold_carry s = r + 1"
    unfolding r_def using assms False by (rule fold_carry_char)
  have dist: "65535 * (q + 1) = 65535 * q + 65535" by (simp only: distrib_left mult_1_right)
  have t: "s + (65535 - fold_carry s) = 65535 * (q + 1)"
    using s fc r dist by linarith
  have "s \<le> 4294967295" using assms by simp
  then have "65535 * q < 65535 * 65537" using s by linarith
  then have "q < 65537" by (simp only: mult_less_cancel1)
  then have "q + 1 \<le> 65537" by linarith
  then have "65535 * (q + 1) \<le> 65535 * 65537" by (rule mult_le_mono2)
  then have lt: "65535 * (q + 1) < (2::nat) ^ 32" by simp
  have nz: "65535 * (q + 1) \<noteq> 0" by simp
  have "65535 * (q + 1) - 1 = 65535 * q + 65534" using dist by linarith
  moreover have "(65534::nat) < 65535" by simp
  ultimately have "(65535 * (q + 1) - 1) mod 65535 = 65534"
    by (simp only: mod_65535_shift)
  then have "fold_carry (65535 * (q + 1)) = 65535"
    using fold_carry_char [OF lt nz] by linarith
  then show ?thesis using t lt by (simp only:) 
qed

lemma unat_not16: "unat (NOT (w :: u16)) = 65535 - unat w"
proof -
  have "NOT w = - 1 - w" by (simp add: not_eq_complement)
  moreover have "unat (- 1 - w) = unat (- 1 :: u16) - unat w"
    by (rule unat_sub) simp
  ultimately show ?thesis by (simp add: unsigned_minus_1_eq_mask mask_eq_exp_minus_1)
qed

lemma unat_complement:
  assumes "f \<le> 65535"
  shows "unat (NOT (of_nat f :: u16)) = 65535 - f"
proof -
  have "unat (of_nat f :: u16) = f"
    using assms by (simp add: unat_of_nat)
  then show ?thesis by (simp add: unat_not16)
qed

lemma not_of_nat_zero_iff:
  assumes "f \<le> 65535"
  shows "(NOT (of_nat f :: u16) = 0) = (f = 65535)"
proof -
  have "(NOT (of_nat f :: u16) = 0) = (unat (NOT (of_nat f :: u16)) = 0)"
    by (simp add: unat_eq_0)
  then show ?thesis using unat_complement [OF assms] assms by simp
qed

lemma split16: "256 * unat (ucast (drop_bit 8 x) :: u8) + unat (ucast x :: u8) = unat (x::u16)"
proof -
  have "unat (ucast x :: u8) = unat x mod 256"
    by (simp add: unsigned_ucast_eq take_bit_eq_mod)
  moreover have "unat (ucast (drop_bit 8 x) :: u8) = (unat x div 256) mod 256"
    by (simp add: unsigned_ucast_eq take_bit_eq_mod drop_bit_eq_div unat_div)
  moreover have "unat x div 256 < 256"
    using unsigned_less [of x, where 'a = nat] by (simp add: less_mult_imp_div_less)
  ultimately show ?thesis by simp
qed

lemma htons_hi: "ucast (htons x) = (ucast (drop_bit 8 x) :: u8)"
  unfolding htons_def by (rule bit_word_eqI) (auto simp: bit_simps)

lemma htons_lo: "ucast (drop_bit 8 (htons x)) = (ucast x :: u8)"
  unfolding htons_def by (rule bit_word_eqI) (auto simp: bit_simps)

lemma wsum_header_bytes:
  "wsum (header_bytes h) =
     wsum (header_bytes (h\<lparr>checksum := 0\<rparr>))
     + (256 * unat (ucast (checksum h) :: u8) + unat (ucast (drop_bit 8 (checksum h)) :: u8))"
  by (simp add: header_bytes_def le16_def le32_def)

lemma wsum_header_bytes_htons:
  "wsum (header_bytes (h\<lparr>checksum := htons c\<rparr>)) = wsum (header_bytes (h\<lparr>checksum := 0\<rparr>)) + unat c"
  using wsum_header_bytes [where h = "h\<lparr>checksum := htons c\<rparr>"] split16 [of c]
  by (simp add: htons_hi htons_lo)

lemma calculate_checksum_eq:
  assumes "unat (data_length (header p)) \<le> length (data p)"
  shows "calculate_checksum p = Some (NOT (of_nat (fold_carry (packet_sum p mod 2 ^ 32))))"
proof -
  let ?hb = "header_bytes (header p)"
  let ?pl = "take (unat (data_length (header p))) (data p)"
  have 1: "add_words 0 ?hb = wsum ?hb mod 2 ^ 32"
    using add_words_eq [of 0 ?hb] by simp
  have 2: "add_words (add_words 0 ?hb) ?pl = (wsum ?hb + wsum ?pl) mod 2 ^ 32"
    using add_words_eq [of "add_words 0 ?hb" ?pl] add_words_less [of 0 ?hb]
    by (simp add: 1 mod_add_left_eq)
  have 3: "add_sacks (add_words (add_words 0 ?hb) ?pl) (sack_blocks p) = packet_sum p mod 2 ^ 32"
    using add_sacks_eq [of "add_words (add_words 0 ?hb) ?pl" "sack_blocks p"]
      add_words_less [of "add_words 0 ?hb" ?pl] add_words_less [of 0 ?hb]
    by (simp add: 2 mod_add_left_eq packet_sum_def)
  show ?thesis
    using assms by (simp add: calculate_checksum_def Let_def 3)
qed

lemma calculate_checksum_old_eq:
  assumes "unat (data_length (header p)) \<le> length (data p)"
  shows "calculate_checksum_old p = Some (NOT (of_nat (fold_carry (packet_sum_old p mod 2 ^ 32))))"
proof -
  let ?hb = "header_bytes (header p)"
  let ?pl = "take (unat (data_length (header p))) (data p)"
  let ?w0 = "256 * unat (?hb ! 0) + unat (?hb ! 1)"
  let ?s0 = "(0 + (push_bit 8 (unat (?hb ! 0)) OR unat (?hb ! 1))) mod 2 ^ 32"
  have 0: "?s0 = ?w0 mod 2 ^ 32" "?s0 < 2 ^ 32"
    by (simp_all add: be16)
  have 1: "add_words ?s0 (drop 4 ?hb) = (?w0 + wsum (drop 4 ?hb)) mod 2 ^ 32"
    using add_words_eq [OF 0(2), of "drop 4 ?hb"] by (simp only: 0(1) mod_add_left_eq)
  have l1: "add_words ?s0 (drop 4 ?hb) < 2 ^ 32"
    using 0(2) by (rule add_words_less)
  have 2: "add_words (add_words ?s0 (drop 4 ?hb)) ?pl = (?w0 + wsum (drop 4 ?hb) + wsum ?pl) mod 2 ^ 32"
    using add_words_eq [OF l1, of ?pl] by (simp only: 1 mod_add_left_eq)
  have l2: "add_words (add_words ?s0 (drop 4 ?hb)) ?pl < 2 ^ 32"
    using l1 by (rule add_words_less)
  have 3: "add_sacks (add_words (add_words ?s0 (drop 4 ?hb)) ?pl) (sack_blocks p) = packet_sum_old p mod 2 ^ 32"
    using add_sacks_eq [OF l2, of "sack_blocks p"]
    by (simp only: 2 mod_add_left_eq packet_sum_old_def)
  show ?thesis
    using assms unfolding calculate_checksum_old_def Let_def 3 by simp
qed

lemma packet_sum_old_checksum:
  "packet_sum_old (p\<lparr>header := (header p)\<lparr>checksum := x\<rparr>\<rparr>) = packet_sum_old p"
  by (simp add: packet_sum_old_def header_bytes_def le16_def le32_def)

lemma packet_sum_htons:
  assumes "checksum (header p) = 0"
  shows "packet_sum (p\<lparr>header := (header p)\<lparr>checksum := htons c\<rparr>\<rparr>) = packet_sum p + unat c"
proof -
  have "(header p)\<lparr>checksum := 0\<rparr> = header p" using assms by simp
  then show ?thesis
    using wsum_header_bytes_htons [where h = "header p" and c = c] by (simp add: packet_sum_def)
qed

lemma verify_set_checksum:
  assumes "unat (data_length (header p)) \<le> length (data p)" "checksum (header p) = 0"
  shows "verify_checksum (set_checksum p) = Some True"
proof -
  define S where "S = packet_sum p mod 2 ^ 32"
  define c :: u16 where "c = NOT (of_nat (fold_carry S))"
  let ?q = "p\<lparr>header := (header p)\<lparr>checksum := htons c\<rparr>\<rparr>"
  have S: "S < 2 ^ 32" by (simp add: S_def)
  have calc: "calculate_checksum p = Some c"
    using calculate_checksum_eq [OF assms(1)] by (simp add: c_def S_def)
  then have q: "set_checksum p = ?q" by (simp add: set_checksum_def)
  have uc: "unat c = 65535 - fold_carry S"
    unfolding c_def using fold_carry_le [OF S] by (rule unat_complement)
  have "packet_sum ?q mod 2 ^ 32 = (packet_sum p + unat c) mod 2 ^ 32"
    using packet_sum_htons [OF assms(2)] by simp
  also have "\<dots> = (S + unat c) mod 2 ^ 32"
    unfolding S_def by (simp only: mod_add_left_eq)
  also have "\<dots> = S + (65535 - fold_carry S)"
    using fold_carry_complement [OF S] uc by simp
  finally have "fold_carry (packet_sum ?q mod 2 ^ 32) = 65535"
    using fold_carry_complement [OF S] by simp
  moreover have "calculate_checksum ?q = Some (NOT (of_nat (fold_carry (packet_sum ?q mod 2 ^ 32))))"
    using assms(1) by (intro calculate_checksum_eq) simp
  ultimately have "calculate_checksum ?q = Some 0" by simp
  then show ?thesis by (simp add: q verify_checksum_def)
qed

lemma verify_set_checksum_old:
  assumes "unat (data_length (header p)) \<le> length (data p)"
  shows "verify_checksum_old (set_checksum_old p) = Some True"
proof -
  define c :: u16 where "c = NOT (of_nat (fold_carry (packet_sum_old p mod 2 ^ 32)))"
  let ?q = "p\<lparr>header := (header p)\<lparr>checksum := c\<rparr>\<rparr>"
  have calc: "calculate_checksum_old p = Some c"
    using calculate_checksum_old_eq [OF assms] by (simp add: c_def)
  then have q: "set_checksum_old p = ?q" by (simp add: set_checksum_old_def)
  have "calculate_checksum_old (?q\<lparr>header := (header ?q)\<lparr>checksum := 0\<rparr>\<rparr>) = Some c"
    using calculate_checksum_old_eq [of "?q\<lparr>header := (header ?q)\<lparr>checksum := 0\<rparr>\<rparr>"] assms
      packet_sum_old_checksum [where p = p and x = 0]
    by (simp add: c_def)
  then show ?thesis
    by (simp add: q verify_checksum_old_def Let_def)
qed

text \<open>the checksum reads only the header, the payload prefix and the SACK blocks\<close>
lemma calculate_checksum_cong:
  assumes "header r = header q" "sack_blocks r = sack_blocks q"
    and "take (unat (data_length (header q))) (data r) = take (unat (data_length (header q))) (data q)"
    and "unat (data_length (header q)) \<le> length (data q)"
    and "unat (data_length (header q)) \<le> length (data r)"
  shows "calculate_checksum r = calculate_checksum q" "calculate_checksum_old r = calculate_checksum_old q"
  using assms by (simp_all add: calculate_checksum_def calculate_checksum_old_def Let_def)

text \<open>
  Claim C1 (codec round-trip). For every well-formed packet whose checksum field the
  sender has set on the freshly built packet, deserializing the serialized packet gives
  back the header and the SACK blocks, and the payload followed by zero padding, and
  checksum verification accepts the result. This holds for the current revision
  (\<open>htons\<close> of the checksum, verification expects the sum to vanish) and for the
  earlier one (checksum stored as is, verification compares with the recomputed value).
\<close>

theorem C1_codec_roundtrip:
  assumes "well_formed p" and "checksum (header p) = 0"
  shows "(\<exists>b r. serialize (set_checksum p) = Some b \<and> deserialize b = Some r
            \<and> header r = header (set_checksum p) \<and> sack_blocks r = sack_blocks p
            \<and> data r = take (unat (data_length (header p))) (data p)
                        @ replicate (MAX_DATA_SIZE - unat (data_length (header p))) 0
            \<and> verify_checksum r = Some True)
       \<and> (\<exists>b r. serialize (set_checksum_old p) = Some b \<and> deserialize b = Some r
            \<and> header r = header (set_checksum_old p) \<and> sack_blocks r = sack_blocks p
            \<and> data r = take (unat (data_length (header p))) (data p)
                        @ replicate (MAX_DATA_SIZE - unat (data_length (header p))) 0
            \<and> verify_checksum_old r = Some True)"
proof -
  let ?n = "unat (data_length (header p))"
  from assms(1) have len: "length (data p) = 1024" and n: "?n \<le> 1024"
    by (simp_all add: well_formed_def)
  have fit: "?n \<le> length (data p)" using len n by simp
  have shape: "\<exists>c. set_checksum p = p\<lparr>header := (header p)\<lparr>checksum := c\<rparr>\<rparr>"
    using calculate_checksum_eq [OF fit] by (auto simp: set_checksum_def)
  have shape_old: "\<exists>c. set_checksum_old p = p\<lparr>header := (header p)\<lparr>checksum := c\<rparr>\<rparr>"
    using calculate_checksum_old_eq [OF fit] by (auto simp: set_checksum_old_def)
  have part: "\<exists>b r. serialize q = Some b \<and> deserialize b = Some r
            \<and> header r = header q \<and> sack_blocks r = sack_blocks p
            \<and> data r = take ?n (data p) @ replicate (MAX_DATA_SIZE - ?n) 0
            \<and> calculate_checksum r = calculate_checksum q
            \<and> calculate_checksum_old (r\<lparr>header := (header r)\<lparr>checksum := 0\<rparr>\<rparr>)
                = calculate_checksum_old (q\<lparr>header := (header q)\<lparr>checksum := 0\<rparr>\<rparr>)"
    if q: "q = p\<lparr>header := (header p)\<lparr>checksum := c\<rparr>\<rparr>" for q c
  proof -
    have wq: "well_formed q" using assms(1) by (simp add: q well_formed_def)
    obtain b where b: "serialize q = Some b"
      and d: "deserialize b = Some \<lparr>header = header q,
               data = take (unat (data_length (header q))) (data q)
                      @ replicate (MAX_DATA_SIZE - unat (data_length (header q))) 0,
               sack_blocks = sack_blocks q\<rparr>"
      using deserialize_serialize [OF wq] by blast
    show ?thesis
      using b d len n
      by (simp add: q calculate_checksum_def calculate_checksum_old_def Let_def)
  qed
  have new: "\<exists>b r. serialize (set_checksum p) = Some b \<and> deserialize b = Some r
            \<and> header r = header (set_checksum p) \<and> sack_blocks r = sack_blocks p
            \<and> data r = take ?n (data p) @ replicate (MAX_DATA_SIZE - ?n) 0
            \<and> verify_checksum r = Some True"
  proof -
    from shape obtain c where c: "set_checksum p = p\<lparr>header := (header p)\<lparr>checksum := c\<rparr>\<rparr>" ..
    from part [OF c] verify_set_checksum [OF fit assms(2)] show ?thesis
      by (auto simp: verify_checksum_def)
  qed
  have old: "\<exists>b r. serialize (set_checksum_old p) = Some b \<and> deserialize b = Some r
            \<and> header r = header (set_checksum_old p) \<and> sack_blocks r = sack_blocks p
            \<and> data r = take ?n (data p) @ replicate (MAX_DATA_SIZE - ?n) 0
            \<and> verify_checksum_old r = Some True"
  proof -
    from shape_old obtain c where c: "set_checksum_old p = p\<lparr>header := (header p)\<lparr>checksum := c\<rparr>\<rparr>" ..
    from part [OF c] verify_set_checksum_old [OF fit] show ?thesis
      by (auto simp: verify_checksum_old_def Let_def)
  qed
  from new old show ?thesis by (rule conjI)
qed

text \<open>The theorem at \<open>example_packet\<close>.\<close>

theorem C1_codec_roundtrip_witness:
  "well_formed example_packet \<and> checksum (header example_packet) = 0 \<and>
   (\<exists>b r. serialize (set_checksum example_packet) = Some b \<and> deserialize b = Some r
      \<and> header r = header (set_checksum example_packet)
      \<and> sack_blocks r = [\<lparr>left_edge = 9, right_edge = 11\<rparr>]
      \<and> data r = [0x41, 0x42, 0x43] @ replicate 1021 0
      \<and> verify_checksum r = Some True)"
proof -
  have wf: "well_formed example_packet"
    by (simp add: well_formed_def example_packet_def PacketHeader_init_def)
  have z: "checksum (header example_packet) = 0"
    by (simp add: example_packet_def PacketHeader_init_def)
  show ?thesis
    using C1_codec_roundtrip [OF wf z] wf z
    by (simp add: example_packet_def PacketHeader_init_def)
qed

section \<open>Properties of the receiver\<close>

lemma set_checksum_fields [simp]:
  "type (header (set_checksum p)) = type (header p)"
  "flags (header (set_checksum p)) = flags (header p)"
  "seq_num (header (set_checksum p)) = seq_num (header p)"
  "ack_num (header (set_checksum p)) = ack_num (header p)"
  "window_size (header (set_checksum p)) = window_size (header p)"
  "data_length (header (set_checksum p)) = data_length (header p)"
  "sack_count (header (set_checksum p)) = sack_count (header p)"
  "data (set_checksum p) = data p"
  "sack_blocks (set_checksum p) = sack_blocks p"
  by (cases "calculate_checksum p"; simp add: set_checksum_def)+

lemma verify_reply:
  assumes "data p = data Packet_init" "data_length (header p) = 0" "checksum (header p) = 0"
  shows "verify_checksum (set_checksum p) = Some True"
  using assms by (intro verify_set_checksum) (simp_all add: Packet_init_def)

lemma state_drain [simp]: "state (drain r) = state r"
proof (induction r rule: drain.induct)
  case (1 r)
  then show ?case
    by (subst drain.simps) (simp split: option.splits)
qed

lemma state_send_ack [simp]: "state (send_ack r) = state r"
  by (simp add: send_ack_def send_packet_def Let_def)

lemma handle_packet_established:
  "state (handle_packet p r) = ESTABLISHED \<Longrightarrow>
     state r = ESTABLISHED \<or> (state r = SYN_RECEIVED \<and> type (header p) = ACK \<and> ack_num (header p) = 1)"
  by (auto simp: handle_packet_def handle_syn_def handle_ack_handshake_def handle_file_name_def
      handle_data_def handle_fin_def send_packet_def Let_def split: if_splits)









lemma drain_frame:
  "received_seqs (drain r) = received_seqs r \<and> sent (drain r) = sent r
   \<and> client_locked (drain r) = client_locked r \<and> client_addr (drain r) = client_addr r
   \<and> sender_addr (drain r) = sender_addr r"
proof (induction r rule: drain.induct)
  case (1 r)
  show ?case
  proof (cases "map_of (recv_buffer r) (expected_seq r)")
    case None
    then show ?thesis by (subst (1 2 3 4 5) drain.simps) simp
  next
    case (Some pkt)
    from 1 [OF Some] Some show ?thesis by (subst (1 2 3 4 5) drain.simps) simp
  qed
qed

lemmas drain_other [simp] = drain_frame [THEN conjunct1] drain_frame [THEN conjunct2, THEN conjunct1]
  drain_frame [THEN conjunct2, THEN conjunct2, THEN conjunct1]
  drain_frame [THEN conjunct2, THEN conjunct2, THEN conjunct2, THEN conjunct1]
  drain_frame [THEN conjunct2, THEN conjunct2, THEN conjunct2, THEN conjunct2]

lemma send_ack_frame [simp]:
  "expected_seq (send_ack r) = expected_seq r" "output_file (send_ack r) = output_file r"
  "recv_buffer (send_ack r) = recv_buffer r" "received_seqs (send_ack r) = received_seqs r"
  by (simp_all add: send_ack_def send_packet_def Let_def)













lemma deserialize_syn_bytes: "deserialize syn_bytes = Some syn_packet"
  by (simp add: deserialize_def syn_bytes_def syn_packet_def buf_read_def header_of_bytes_def
      u16_at_def u32_at_def Packet_init_def PacketHeader_init_def)

lemma verify_syn_packet: "verify_checksum syn_packet = Some True"
  by (simp add: verify_checksum_def calculate_checksum_def syn_packet_def Packet_init_def
      PacketHeader_init_def header_bytes_def le16_def le32_def add_sacks_def fold_carry_small Let_def)

lemma deserialize_fin_bytes: "deserialize fin_bytes = Some fin_packet"
  by (simp add: deserialize_def fin_bytes_def fin_packet_def buf_read_def header_of_bytes_def
      u16_at_def u32_at_def Packet_init_def PacketHeader_init_def)

lemma verify_fin_packet: "verify_checksum fin_packet = Some True"
  by (simp add: verify_checksum_def calculate_checksum_def fin_packet_def Packet_init_def
      PacketHeader_init_def header_bytes_def le16_def le32_def add_sacks_def fold_carry_small Let_def)

text \<open>
  Claim C6 (receiver handshake). A checksum-valid SYN from the locked peer, or from any peer
  when none is locked, makes the receiver lock the peer, reply SYN_ACK with \<open>seq_num = 0\<close> and
  \<open>ack_num = syn.seq_num + 1\<close>, set \<open>expected_seq\<close> to that number and enter SYN_RECEIVED.
  No packet takes the receiver into ESTABLISHED except an ACK with \<open>ack_num = 1\<close> handled in
  SYN_RECEIVED; an ACK with another \<open>ack_num\<close> leaves the receiver as it is.
\<close>

theorem C6_receiver_handshake:
  "(deserialize buffer = Some syn \<and> 0 < length buffer \<and> verify_checksum syn = Some True
      \<and> type (header syn) = SYN \<and> (client_locked r \<longrightarrow> same_endpoint peer (client_addr r))
    \<longrightarrow> (\<exists>r' reply. run_iter (Some (peer, buffer)) r = Some (Continue r')
          \<and> client_locked r' \<and> client_addr r' = (if client_locked r then client_addr r else peer)
          \<and> sent r' = sent r @ [(peer, reply)]
          \<and> type (header reply) = SYN_ACK \<and> seq_num (header reply) = 0
          \<and> ack_num (header reply) = seq_num (header syn) + 1
          \<and> verify_checksum reply = Some True
          \<and> expected_seq r' = seq_num (header syn) + 1
          \<and> state r' = SYN_RECEIVED))
   \<and> (state (handle_packet p q) = ESTABLISHED \<and> state q \<noteq> ESTABLISHED
        \<longrightarrow> state q = SYN_RECEIVED \<and> type (header p) = ACK \<and> ack_num (header p) = 1)
   \<and> (state q = SYN_RECEIVED \<and> type (header p) = ACK
        \<longrightarrow> handle_packet p q = (if ack_num (header p) = 1 then q\<lparr>state := ESTABLISHED\<rparr> else q))"
proof (intro conjI impI)
  assume a: "deserialize buffer = Some syn \<and> 0 < length buffer \<and> verify_checksum syn = Some True
      \<and> type (header syn) = SYN \<and> (client_locked r \<longrightarrow> same_endpoint peer (client_addr r))"
  let ?reply = "set_checksum (Packet_init\<lparr>header := (header Packet_init)
                      \<lparr>type := SYN_ACK, seq_num := 0, ack_num := seq_num (header syn) + 1\<rparr>\<rparr>)"
  have v: "verify_checksum ?reply = Some True"
    by (rule verify_reply) (simp_all add: Packet_init_def PacketHeader_init_def)
  from a show "\<exists>r' reply. run_iter (Some (peer, buffer)) r = Some (Continue r')
          \<and> client_locked r' \<and> client_addr r' = (if client_locked r then client_addr r else peer)
          \<and> sent r' = sent r @ [(peer, reply)]
          \<and> type (header reply) = SYN_ACK \<and> seq_num (header reply) = 0
          \<and> ack_num (header reply) = seq_num (header syn) + 1
          \<and> verify_checksum reply = Some True
          \<and> expected_seq r' = seq_num (header syn) + 1
          \<and> state r' = SYN_RECEIVED"
    using v
    by (auto simp: run_iter_def receive_packet_def handle_packet_def handle_syn_def
        send_packet_def Let_def)
next
  assume "state (handle_packet p q) = ESTABLISHED \<and> state q \<noteq> ESTABLISHED"
  then show "state q = SYN_RECEIVED" "type (header p) = ACK" "ack_num (header p) = 1"
    using handle_packet_established [of p q] by auto
next
  assume "state q = SYN_RECEIVED \<and> type (header p) = ACK"
  then show "handle_packet p q = (if ack_num (header p) = 1 then q\<lparr>state := ESTABLISHED\<rparr> else q)"
    by (simp add: handle_packet_def handle_ack_handshake_def)
qed

text \<open>The theorem at a SYN datagram for a fresh receiver and at the handshake ACK.\<close>

theorem C6_receiver_handshake_witness:
  "deserialize syn_bytes = Some syn_packet \<and> 0 < length syn_bytes
   \<and> verify_checksum syn_packet = Some True \<and> type (header syn_packet) = SYN
   \<and> \<not> client_locked Receiver_init
   \<and> (\<exists>r' reply. run_iter (Some ((1, 2), syn_bytes)) Receiver_init = Some (Continue r')
          \<and> client_locked r' \<and> client_addr r' = (1, 2)
          \<and> sent r' = [((1, 2), reply)]
          \<and> type (header reply) = SYN_ACK \<and> seq_num (header reply) = 0
          \<and> ack_num (header reply) = 1
          \<and> verify_checksum reply = Some True
          \<and> expected_seq r' = 1
          \<and> state r' = SYN_RECEIVED)
   \<and> state (Receiver_init\<lparr>state := SYN_RECEIVED\<rparr>) = SYN_RECEIVED \<and> type (header ack_one) = ACK
   \<and> handle_packet ack_one (Receiver_init\<lparr>state := SYN_RECEIVED\<rparr>) = Receiver_init\<lparr>state := ESTABLISHED\<rparr>
   \<and> state (handle_packet ack_one (Receiver_init\<lparr>state := SYN_RECEIVED\<rparr>)) = ESTABLISHED"
  using C6_receiver_handshake [where buffer = syn_bytes and syn = syn_packet and r = Receiver_init
      and peer = "(1, 2)" and p = ack_one and q = "Receiver_init\<lparr>state := SYN_RECEIVED\<rparr>"]
    deserialize_syn_bytes verify_syn_packet
  by (simp add: syn_bytes_def syn_packet_def ack_one_def Receiver_init_def Packet_init_def
      PacketHeader_init_def)

text \<open>
  Claim C9 (FIN). A checksum-valid FIN from the locked peer, or from any peer when none is
  locked, is answered in every state of the receiver by FIN_ACK with
  \<open>ack_num = fin.seq_num + 1\<close>; the file is closed, the state becomes CLOSED and the loop of
  \<open>run\<close> is left, whatever datagrams would follow.
\<close>

theorem C9_fin_closes:
  assumes "deserialize buffer = Some fin" "0 < length buffer" "verify_checksum fin = Some True"
    and "type (header fin) = FIN" "client_locked r \<longrightarrow> same_endpoint peer (client_addr r)"
  shows "\<exists>r' reply. run_iter (Some (peer, buffer)) r = Some (Break r')
          \<and> (\<forall>dgs. run (Some (peer, buffer) # dgs) r = Some (Break r'))
          \<and> sent r' = sent r @ [(peer, reply)]
          \<and> type (header reply) = FIN_ACK
          \<and> ack_num (header reply) = seq_num (header fin) + 1
          \<and> output_file r' = output_file r @ [Close]
          \<and> state r' = CLOSED"
  using assms
  by (auto simp: run_iter_def receive_packet_def handle_packet_def handle_fin_def
      send_packet_def Let_def)

text \<open>The theorem at a FIN datagram for a receiver that never had a connection.\<close>

theorem C9_fin_closes_witness:
  "deserialize fin_bytes = Some fin_packet \<and> 0 < length fin_bytes
   \<and> verify_checksum fin_packet = Some True \<and> type (header fin_packet) = FIN
   \<and> \<not> client_locked Receiver_init \<and> state Receiver_init = CLOSED
   \<and> (\<exists>r' reply. run_iter (Some ((1, 2), fin_bytes)) Receiver_init = Some (Break r')
          \<and> (\<forall>dgs. run (Some ((1, 2), fin_bytes) # dgs) Receiver_init = Some (Break r'))
          \<and> sent r' = [((1, 2), reply)]
          \<and> type (header reply) = FIN_ACK
          \<and> ack_num (header reply) = 4
          \<and> output_file r' = [Close]
          \<and> state r' = CLOSED)"
proof -
  have h: "client_locked Receiver_init \<longrightarrow> same_endpoint (1, 2) (client_addr Receiver_init)"
    by (simp add: Receiver_init_def)
  have t: "type (header fin_packet) = FIN" and l: "0 < length fin_bytes"
    by (simp_all add: fin_packet_def fin_bytes_def)
  show ?thesis
    using C9_fin_closes [OF deserialize_fin_bytes l verify_fin_packet t h]
      deserialize_fin_bytes verify_fin_packet t l
    by (simp add: fin_packet_def Receiver_init_def)
qed



text \<open>What the receiver writes on these packets.\<close>

lemma example_delivery:
  "output_file (foldl (\<lambda>r p. handle_data p r) established
         [data_packet 2 0x62, data_packet 1 0x61, data_packet 2 0x7A]) = [Write [0x61], Write [0x62]]
   \<and> expected_seq (foldl (\<lambda>r p. handle_data p r) established
         [data_packet 2 0x62, data_packet 1 0x61, data_packet 2 0x7A]) = 3"
  by (simp add: handle_data_def established_def Receiver_init_def data_packet_def PacketHeader_init_def
      drain.simps payload_def Let_def map_erase_def)

section \<open>Properties of the sender\<close>

lemma unat_inc:
  fixes x y :: u32
  assumes "x < y"
  shows "unat (x + 1) = unat x + 1"
proof -
  have "unat x < unat y" using assms by (simp add: word_less_nat_alt)
  moreover have "unat y < 2 ^ 32" using unsigned_less [of y, where 'a = nat] by simp
  ultimately have "unat x + unat (1 :: u32) < 2 ^ LENGTH(32)" by simp
  then have "unat (x + 1) = unat x + unat (1 :: u32)" by (simp only: unat_add_lem [THEN iffD1])
  then show ?thesis by simp
qed

lemma less_inc: fixes x y :: u32 shows "x < y \<Longrightarrow> x < x + 1"
  using unat_inc [of x y] by (simp add: word_less_nat_alt)

lemma le_iff_eq_or_inc:
  fixes l k r :: u32
  assumes "l < r"
  shows "l \<le> k \<longleftrightarrow> k = l \<or> l + 1 \<le> k"
  using unat_inc [OF assms] by (auto simp: word_le_nat_alt word_unat_eq_iff)

lemma map_put_append:
  "\<forall>k \<in> set (map fst m). k < x \<Longrightarrow> map_put x v m = m @ [(x, v)]"
  by (induction m) auto

lemma map_fst_map_erase: "map fst (map_erase k m) = filter (\<lambda>k'. k' \<noteq> k) (map fst m)"
  by (induction m) (auto simp: map_erase_def)

lemma set_map_erase: "set (map_erase k m) \<subseteq> set m"
  by (auto simp: map_erase_def)

lemma map_fst_map_put_mem:
  "k \<in> set (map fst m) \<Longrightarrow> sorted_wrt (<) (map fst m) \<Longrightarrow> map fst (map_put k v m) = map fst m"
proof (induction m)
  case Nil
  then show ?case by simp
next
  case (Cons a m)
  then show ?case by (cases a) (auto simp: not_less)
qed

text \<open>erase_acked on a map in key order\<close>

lemma erase_acked_fst:
  "fst (erase_acked b sp st) = dropWhile (\<lambda>kv. fst kv < b) sp"
  by (induction b sp st rule: erase_acked.induct) auto

lemma erase_acked_snd_subset:
  "set (snd (erase_acked b sp st)) \<subseteq> set st"
  by (induction b sp st rule: erase_acked.induct) (auto simp: map_erase_def)

lemma sorted_dropWhile_ge:
  fixes b :: u32
  assumes "sorted_wrt (<) (map fst sp)"
  shows "\<forall>k \<in> set (map fst (dropWhile (\<lambda>kv. fst kv < b) sp)). b \<le> k"
  using assms
proof (induction sp)
  case Nil
  then show ?case by simp
next
  case (Cons a sp)
  show ?case
  proof (cases "fst a < b")
    case True
    with Cons show ?thesis by simp
  next
    case False
    then have "b \<le> fst a" by (simp add: not_less)
    moreover from Cons.prems have "\<forall>k \<in> set (map fst sp). fst a < k" by simp
    ultimately show ?thesis using False by (auto intro: order.trans less_imp_le)
  qed
qed

lemma sorted_dropWhile: "sorted_wrt (<) (map fst sp) \<Longrightarrow> sorted_wrt (<) (map fst (dropWhile P sp))"
  by (induction sp) auto

lemma sorted_map_erase: "sorted_wrt (<) (map fst m) \<Longrightarrow> sorted_wrt (<) (map fst (map_erase k m))"
  by (simp add: map_fst_map_erase sorted_wrt_filter)

text \<open>sack_erase removes exactly the keys of the block\<close>

lemma sack_erase_eq:
  "sack_erase l r s =
     s\<lparr>sent_packets := filter (\<lambda>kv. \<not> (l \<le> fst kv \<and> fst kv < r)) (sent_packets s),
       send_times := filter (\<lambda>kv. \<not> (l \<le> fst kv \<and> fst kv < r)) (send_times s)\<rparr>"
proof (induction l r s rule: sack_erase.induct)
  case (1 seq right s)
  show ?case
  proof (cases "seq < right")
    case True
    have eq: "(seq \<le> k \<and> k < right) = (k = seq \<or> (seq + 1 \<le> k \<and> k < right))" for k
      using le_iff_eq_or_inc [OF True, of k] True by auto
    have f: "filter (\<lambda>kv. \<not> (seq + 1 \<le> fst kv \<and> fst kv < right)) (map_erase seq m)
             = filter (\<lambda>kv. \<not> (seq \<le> fst kv \<and> fst kv < right)) m" for m :: "(u32 \<times> 'v) list"
      unfolding map_erase_def filter_filter by (rule filter_cong) (auto simp: eq)
    let ?s' = "s\<lparr>sent_packets := map_erase seq (sent_packets s), send_times := map_erase seq (send_times s)\<rparr>"
    have "sack_erase seq right s = sack_erase (seq + 1) right ?s'"
      using True by (subst sack_erase.simps) simp
    also have "\<dots> = ?s'\<lparr>sent_packets := filter (\<lambda>kv. \<not> (seq + 1 \<le> fst kv \<and> fst kv < right)) (sent_packets ?s'),
       send_times := filter (\<lambda>kv. \<not> (seq + 1 \<le> fst kv \<and> fst kv < right)) (send_times ?s')\<rparr>"
      by (rule 1 [OF True])
    finally show ?thesis using f [of "sent_packets s"] f [of "send_times s"] by simp
  next
    case False
    then have "\<not> (seq \<le> k \<and> k < right)" for k by auto
    with False show ?thesis
      by (subst sack_erase.simps) simp
  qed
qed

lemma in_sacks_snoc:
  "in_sacks (sacks @ [b]) k = (in_sacks sacks k \<or> (left_edge b \<le> k \<and> k < right_edge b))"
  by (auto simp: in_sacks_def)

lemma process_sacks_eq:
  "process_sacks sacks s =
     s\<lparr>sent_packets := filter (\<lambda>kv. \<not> in_sacks sacks (fst kv)) (sent_packets s),
       send_times := filter (\<lambda>kv. \<not> in_sacks sacks (fst kv)) (send_times s)\<rparr>"
proof (induction sacks arbitrary: s rule: rev_induct)
  case Nil
  then show ?case by (simp add: process_sacks_def in_sacks_def)
next
  case (snoc b sacks)
  have "process_sacks (sacks @ [b]) s = sack_erase (left_edge b) (right_edge b) (process_sacks sacks s)"
    by (simp add: process_sacks_def)
  also have "\<dots> = s\<lparr>sent_packets := filter (\<lambda>kv. \<not> in_sacks (sacks @ [b]) (fst kv)) (sent_packets s),
       send_times := filter (\<lambda>kv. \<not> in_sacks (sacks @ [b]) (fst kv)) (send_times s)\<rparr>"
    unfolding snoc sack_erase_eq
    by (simp add: in_sacks_snoc)
  finally show ?case .
qed

lemma process_sacks_frame [simp]:
  "base (process_sacks sacks s) = base s"
  "next_seq_num (process_sacks sacks s) = next_seq_num s"
  "snd_seq_num (process_sacks sacks s) = snd_seq_num s"
  "wire (process_sacks sacks s) = wire s"
  "cwnd (process_sacks sacks s) = cwnd s"
  "ssthresh (process_sacks sacks s) = ssthresh s"
  "cong_state (process_sacks sacks s) = cong_state s"
  "duplicate_acks (process_sacks sacks s) = duplicate_acks s"
  "last_acked (process_sacks sacks s) = last_acked s"
  by (simp_all add: process_sacks_eq)

lemma send_packet_frame [simp]:
  "base (Sender_send_packet p s) = base s"
  "next_seq_num (Sender_send_packet p s) = next_seq_num s"
  "snd_seq_num (Sender_send_packet p s) = snd_seq_num s"
  "sent_packets (Sender_send_packet p s) = sent_packets s"
  "send_times (Sender_send_packet p s) = send_times s"
  "wire (Sender_send_packet p s) = wire s @ [p]"
  "cwnd (Sender_send_packet p s) = cwnd s"
  "ssthresh (Sender_send_packet p s) = ssthresh s"
  "cong_state (Sender_send_packet p s) = cong_state s"
  "duplicate_acks (Sender_send_packet p s) = duplicate_acks s"
  "last_acked (Sender_send_packet p s) = last_acked s"
  by (simp_all add: Sender_send_packet_def)

text \<open>what handle_ack does to the window and the in-flight map\<close>

lemma handle_ack_at_base:
  "base (handle_ack_at t a s) = (if base s < ack_num (header a) then ack_num (header a) else base s)"
  by (simp add: handle_ack_at_def Let_def split_beta split: option.splits)

lemma handle_ack_at_next [simp]:
  "next_seq_num (handle_ack_at t a s) = next_seq_num s"
  "snd_seq_num (handle_ack_at t a s) = snd_seq_num s"
  by (simp_all add: handle_ack_at_def Let_def split_beta split: option.splits)

lemma handle_ack_at_sent_packets:
  "sent_packets (handle_ack_at t a s) =
     filter (\<lambda>kv. \<not> in_sacks (sack_blocks a) (fst kv))
       (if base s < ack_num (header a)
        then dropWhile (\<lambda>kv. fst kv < ack_num (header a)) (sent_packets s)
        else sent_packets s)"
  by (simp add: handle_ack_at_def Let_def split_beta process_sacks_eq erase_acked_fst
      split: option.splits)

lemma handle_ack_at_wire_eq:
  "wire (handle_ack_at t a s) =
     (if \<not> base s < ack_num (header a) \<and> ack_num (header a) = last_acked s
         \<and> duplicate_acks s + 1 = t
      then (case map_of (sent_packets s) (ack_num (header a)) of
              Some p \<Rightarrow> wire s @ [p] | None \<Rightarrow> wire s)
      else wire s)"
  by (simp add: handle_ack_at_def Let_def split_beta split: option.splits)

lemma handle_ack_at_wire:
  "wire (handle_ack_at t a s) = wire s
   \<or> (\<exists>p. wire (handle_ack_at t a s) = wire s @ [p]
          \<and> map_of (sent_packets s) (ack_num (header a)) = Some p)"
  unfolding handle_ack_at_wire_eq by (simp split: option.splits)

lemma timeout_entry_frame [simp]:
  "base (timeout_entry now e s) = base s"
  "next_seq_num (timeout_entry now e s) = next_seq_num s"
  "snd_seq_num (timeout_entry now e s) = snd_seq_num s"
  "sent_packets (timeout_entry now e s) = sent_packets s"
  by (simp_all add: timeout_entry_def Let_def split: option.splits)

lemma check_timeout_fold_frame:
  "base (foldl (\<lambda>s e. timeout_entry now e s) s es) = base s
   \<and> next_seq_num (foldl (\<lambda>s e. timeout_entry now e s) s es) = next_seq_num s
   \<and> snd_seq_num (foldl (\<lambda>s e. timeout_entry now e s) s es) = snd_seq_num s
   \<and> sent_packets (foldl (\<lambda>s e. timeout_entry now e s) s es) = sent_packets s"
  by (induction es arbitrary: s) simp_all

lemma check_timeout_frame [simp]:
  "base (check_timeout now s) = base s"
  "next_seq_num (check_timeout now s) = next_seq_num s"
  "snd_seq_num (check_timeout now s) = snd_seq_num s"
  "sent_packets (check_timeout now s) = sent_packets s"
  using check_timeout_fold_frame [of now s "send_times s"] by (simp_all add: check_timeout_def)

lemma send_new_frame [simp]:
  "base (send_new f now s) = base s"
  "next_seq_num (send_new f now s) = next_seq_num s + 1"
  "snd_seq_num (send_new f now s) = snd_seq_num s"
  by (simp_all add: send_new_def Let_def)

lemma send_new_sent_packets:
  "\<exists>p. sent_packets (send_new f now s) = map_put (next_seq_num s) p (sent_packets s)
       \<and> wire (send_new f now s) = wire s @ [p]
       \<and> seq_num (header p) = next_seq_num s \<and> type (header p) = DATA"
  by (simp add: send_new_def Let_def Packet_init_def)

lemma unat_window_limit: "unat (window_limit s) \<le> WINDOW_SIZE"
proof -
  have "window_limit s \<le> 16" by (simp add: window_limit_def)
  then show ?thesis by (simp add: word_le_nat_alt)
qed

lemma unat_add_le: "unat (a + b) \<le> unat a + unat (b :: u32)"
  by (simp add: unat_word_ariths)

lemma snd_inv_send_new:
  assumes inv: "snd_inv s" and may: "may_send tot (window_limit s) s"
  shows "snd_inv (send_new f now s)"
    and "unat (next_seq_num (send_new f now s)) \<le> unat (base s) + unat (window_limit s)"
proof -
  let ?n = "next_seq_num s"
  from may have lt1: "?n < base s + window_limit s" and lt2: "?n < snd_seq_num s + tot"
    by (simp_all add: may_send_def)
  have inc: "unat (?n + 1) = unat ?n + 1" using lt2 by (rule unat_inc)
  have less: "?n < ?n + 1" using lt2 by (rule less_inc)
  have "unat ?n < unat (base s + window_limit s)" using lt1 by (simp add: word_less_nat_alt)
  also have "\<dots> \<le> unat (base s) + unat (window_limit s)" by (rule unat_add_le)
  finally have bound: "unat (?n + 1) \<le> unat (base s) + unat (window_limit s)" using inc by simp
  then show "unat (next_seq_num (send_new f now s)) \<le> unat (base s) + unat (window_limit s)"
    by simp
  from inv have b: "base s \<le> ?n" and srt: "sorted_wrt (<) (map fst (sent_packets s))"
    and keys: "\<forall>k \<in> set (map fst (sent_packets s)). base s \<le> k \<and> k < ?n"
    by (simp_all add: snd_inv_def)
  obtain p where p: "sent_packets (send_new f now s) = map_put ?n p (sent_packets s)"
    using send_new_sent_packets by blast
  have app: "map_put ?n p (sent_packets s) = sent_packets s @ [(?n, p)]"
    using keys by (intro map_put_append) simp
  show "snd_inv (send_new f now s)"
    unfolding snd_inv_def
  proof (intro conjI)
    show "base (send_new f now s) \<le> next_seq_num (send_new f now s)"
      using b less by simp
    show "unat (next_seq_num (send_new f now s)) \<le> unat (base (send_new f now s)) + WINDOW_SIZE"
      using bound unat_window_limit [of s] by simp
    show "sorted_wrt (<) (map fst (sent_packets (send_new f now s)))"
      using srt keys by (auto simp: p app sorted_wrt_append)
    show "\<forall>k \<in> set (map fst (sent_packets (send_new f now s))).
            base (send_new f now s) \<le> k \<and> k < next_seq_num (send_new f now s)"
      using keys b less by (auto simp: p app)
  qed
qed

lemma snd_inv_handle_ack:
  assumes inv: "snd_inv s" and honest: "ack_num (header a) \<le> next_seq_num s"
  shows "snd_inv (handle_ack_at t a s)"
proof -
  let ?ack = "ack_num (header a)"
  from inv have b: "base s \<le> next_seq_num s"
    and w: "unat (next_seq_num s) \<le> unat (base s) + WINDOW_SIZE"
    and srt: "sorted_wrt (<) (map fst (sent_packets s))"
    and keys: "\<forall>k \<in> set (map fst (sent_packets s)). base s \<le> k \<and> k < next_seq_num s"
    by (simp_all add: snd_inv_def)
  show ?thesis
  proof (cases "base s < ?ack")
    case True
    have ge: "\<forall>k \<in> set (map fst (dropWhile (\<lambda>kv. fst kv < ?ack) (sent_packets s))). ?ack \<le> k"
      using srt by (rule sorted_dropWhile_ge)
    have sub: "set (dropWhile (\<lambda>kv. fst kv < ?ack) (sent_packets s)) \<subseteq> set (sent_packets s)"
      by (rule set_dropWhileD [THEN subsetI])
    have "unat (base s) \<le> unat ?ack" using True by (simp add: word_less_nat_alt)
    then have w': "unat (next_seq_num s) \<le> unat ?ack + WINDOW_SIZE" using w by simp
    have lt: "\<forall>kv \<in> set (dropWhile (\<lambda>kv. fst kv < ?ack) (sent_packets s)). fst kv < next_seq_num s"
      using sub keys by auto
    have srt': "sorted_wrt (<) (map fst (dropWhile (\<lambda>kv. fst kv < ?ack) (sent_packets s)))"
      using srt by (rule sorted_dropWhile)
    show ?thesis
      unfolding snd_inv_def handle_ack_at_base handle_ack_at_next handle_ack_at_sent_packets
      using True honest w' srt' ge lt
      by (auto simp: sorted_wrt_filter sorted_wrt_map)
  next
    case False
    show ?thesis
      unfolding snd_inv_def handle_ack_at_base handle_ack_at_next handle_ack_at_sent_packets
      using False b w srt keys
      by (auto simp: sorted_wrt_filter sorted_wrt_map)
  qed
qed

lemma snd_inv_check_timeout: "snd_inv s \<Longrightarrow> snd_inv (check_timeout now s)"
  by (simp add: snd_inv_def)

text \<open>The state after the two timeouts.\<close>

lemma shrink_state_values:
  "base shrink_state = 2 \<and> next_seq_num shrink_state = 4 \<and> cwnd shrink_state = 1
   \<and> map fst (sent_packets shrink_state) = [2, 3]"
  by (simp add: shrink_state_def shrink_events_def sender_run_def sender_step_def may_send_def
      window_limit_def to_u32_def total_packets_of_def send_new_def Sender_send_packet_def
      handle_ack_at_def process_sacks_def check_timeout_def timeout_entry_def
      Sender_connected_def ack_packet_for_def Packet_init_def PacketHeader_init_def Let_def
      map_erase_def)


lemma snd_inv_step:
  assumes "snd_inv s"
    and "case ev of Recv_ack a \<Rightarrow> ack_num (header a) \<le> next_seq_num s | _ \<Rightarrow> True"
  shows "snd_inv (sender_step t f ev s)"
proof (cases ev)
  case (Send_new now)
  then show ?thesis
    using assms(1) snd_inv_send_new(1) [OF assms(1)] by (simp add: sender_step_def)
next
  case (Recv_ack a)
  then show ?thesis
    using assms snd_inv_handle_ack by (simp add: sender_step_def)
next
  case (Timeout_scan now)
  then show ?thesis
    using assms(1) snd_inv_check_timeout by (simp add: sender_step_def)
qed

lemma snd_inv_run:
  "snd_inv s \<Longrightarrow> acks_in_range t f evs s \<Longrightarrow> snd_inv (sender_run t f evs s)"
proof (induction evs arbitrary: s)
  case Nil
  then show ?case by (simp add: sender_run_def)
next
  case (Cons ev evs)
  from Cons.prems have "snd_inv (sender_step t f ev s)"
    by (intro snd_inv_step) simp_all
  moreover from Cons.prems have "acks_in_range t f evs (sender_step t f ev s)" by simp
  ultimately have "snd_inv (sender_run t f evs (sender_step t f ev s))" by (rule Cons.IH)
  then show ?case by (simp add: sender_run_def)
qed

lemma snd_inv_connected: "snd_inv Sender_connected"
  by (simp add: snd_inv_def Sender_connected_def)

lemma sorted_keys_length:
  fixes b n :: u32
  assumes "sorted_wrt (<) ks" and "\<forall>k \<in> set ks. b \<le> k \<and> k < n"
  shows "length ks \<le> unat n - unat b"
proof -
  have "distinct ks" using assms(1) by (induction ks) auto
  then have "length ks = card (set ks)" by (simp add: distinct_card)
  also have "\<dots> = card (unat ` set ks)"
    by (rule card_image [symmetric]) (simp add: inj_on_def word_unat_eq_iff)
  also have "\<dots> \<le> card {unat b ..< unat n}"
    using assms(2) by (intro card_mono) (auto simp: word_le_nat_alt word_less_nat_alt)
  finally show ?thesis by simp
qed

lemma snd_inv_length:
  assumes "snd_inv s"
  shows "length (sent_packets s) \<le> WINDOW_SIZE"
proof -
  from assms have "length (map fst (sent_packets s)) \<le> unat (next_seq_num s) - unat (base s)"
    by (intro sorted_keys_length) (simp_all add: snd_inv_def)
  moreover from assms have "unat (next_seq_num s) \<le> unat (base s) + WINDOW_SIZE"
    by (simp add: snd_inv_def)
  ultimately show ?thesis by simp
qed

text \<open>
  Claim C4 (sender window invariant), as amended. At every state that the connected sender
  reaches by first transmissions, ACKs whose \<open>ack_num\<close> is at most \<open>next_seq_num\<close> and
  timeout scans: \<open>base \<le> next_seq_num \<le> base + WINDOW_SIZE\<close>; every key \<open>k\<close> of
  \<open>sent_packets\<close> satisfies \<open>base \<le> k < next_seq_num\<close>; \<open>sent_packets\<close> has at most
  \<open>WINDOW_SIZE\<close> entries; and a packet is transmitted for the first time only while
  \<open>next_seq_num < base + window_limit\<close>, so that \<open>next_seq_num \<le> base + window_limit\<close> right
  after it, with \<open>window_limit = min (floor cwnd) WINDOW_SIZE\<close>.
\<close>

theorem C4_window_invariant:
  fixes evs :: "sender_event list" and trigger :: u32 and file_data :: "u8 list"
  defines "s \<equiv> sender_run trigger file_data evs Sender_connected"
  assumes "acks_in_range trigger file_data evs Sender_connected"
  shows "base s \<le> next_seq_num s
       \<and> unat (next_seq_num s) \<le> unat (base s) + WINDOW_SIZE
       \<and> (\<forall>k \<in> fst ` set (sent_packets s). base s \<le> k \<and> k < next_seq_num s)
       \<and> length (sent_packets s) \<le> WINDOW_SIZE
       \<and> (\<forall>now. next_seq_num (sender_step trigger file_data (Send_new now) s) \<noteq> next_seq_num s
              \<longrightarrow> unat (next_seq_num (sender_step trigger file_data (Send_new now) s))
                    \<le> unat (base s) + unat (window_limit s))"
proof -
  have inv: "snd_inv s"
    unfolding s_def using snd_inv_connected assms(2) by (rule snd_inv_run)
  have fresh: "unat (next_seq_num (sender_step trigger file_data (Send_new now) s))
                 \<le> unat (base s) + unat (window_limit s)"
    if "next_seq_num (sender_step trigger file_data (Send_new now) s) \<noteq> next_seq_num s" for now
  proof -
    from that have may: "may_send (total_packets_of file_data) (window_limit s) s"
      by (auto simp: sender_step_def split: if_splits)
    then show ?thesis
      using snd_inv_send_new(2) [OF inv may] by (simp add: sender_step_def)
  qed
  from inv snd_inv_length [OF inv] fresh show ?thesis
    by (auto simp: snd_inv_def)
qed

text \<open>The theorem at the transfer with two timeouts.\<close>

theorem C4_window_invariant_witness:
  "acks_in_range 2 (replicate 3000 0) shrink_events Sender_connected
   \<and> base shrink_state \<le> next_seq_num shrink_state
   \<and> unat (next_seq_num shrink_state) \<le> unat (base shrink_state) + WINDOW_SIZE
   \<and> length (sent_packets shrink_state) \<le> WINDOW_SIZE"
proof -
  have h: "acks_in_range 2 (replicate 3000 0) shrink_events Sender_connected"
    by (simp add: shrink_events_def sender_step_def may_send_def
      window_limit_def to_u32_def total_packets_of_def Sender_connected_def ack_packet_for_def
      Packet_init_def PacketHeader_init_def)
  from C4_window_invariant [OF h] h show ?thesis
    by (simp add: shrink_state_def)
qed

text \<open>
  The claim as stated fails: \<open>check_timeout\<close> sets \<open>cwnd\<close> to 1 and leaves the packets in
  flight where they are. After a timeout of two packets in flight, \<open>next_seq_num\<close> exceeds
  \<open>base + window_limit\<close> and \<open>sent_packets\<close> has more than \<open>min cwnd WINDOW_SIZE\<close> entries.
\<close>

theorem C4_window_invariant_counterexample:
  "\<not> unat (next_seq_num shrink_state) \<le> unat (base shrink_state) + unat (window_limit shrink_state)
   \<and> \<not> real (length (sent_packets shrink_state)) \<le> min (cwnd shrink_state) (real WINDOW_SIZE)"
proof -
  from shrink_state_values
  have "length (map fst (sent_packets shrink_state)) = length [2 :: u32, 3]"
    by (simp only:)
  then have len: "length (sent_packets shrink_state) = 2"
    by simp
  from shrink_state_values have "base shrink_state = 2" "next_seq_num shrink_state = 4"
    "cwnd shrink_state = 1"
    by simp_all
  with len show ?thesis
    by (simp add: window_limit_def to_u32_def)
qed

text \<open>
  Claim C3 (fast retransmit trigger). In the current revision the fast retransmit fires when
  the counter of duplicate ACKs reaches 2: for a sender that has counted one duplicate, the
  next duplicate ACK retransmits the packet, sets \<open>ssthresh\<close> and \<open>cwnd\<close> and enters
  FAST_RECOVERY. The earlier revision does nothing at that count.
\<close>

theorem C3_fast_retransmit_fires_at_two:
  "duplicate_acks (handle_ack (ack_packet_for 5) dup_state) = 2
   \<and> wire (handle_ack (ack_packet_for 5) dup_state) = wire dup_state @ [data_packet 5 0x61]
   \<and> ssthresh (handle_ack (ack_packet_for 5) dup_state) = 2
   \<and> cwnd (handle_ack (ack_packet_for 5) dup_state) = 5
   \<and> cong_state (handle_ack (ack_packet_for 5) dup_state) = FAST_RECOVERY
   \<and> duplicate_acks (handle_ack_old (ack_packet_for 5) dup_state) = 2
   \<and> wire (handle_ack_old (ack_packet_for 5) dup_state) = wire dup_state
   \<and> cong_state (handle_ack_old (ack_packet_for 5) dup_state) = SLOW_START"
  by (simp add: handle_ack_def handle_ack_old_def handle_ack_at_def dup_state_def Sender_connected_def
      ack_packet_for_def Packet_init_def PacketHeader_init_def process_sacks_def
      Sender_send_packet_def to_u32_def Let_def)

subsection \<open>Selective acknowledgements\<close>

lemma set_map_put: "set (map_put k v m) \<subseteq> insert (k, v) (set m)"
  by (induction m) (auto split: if_splits)

lemma map_of_in_set: "map_of m k = Some v \<Longrightarrow> (k, v) \<in> set m"
  by (rule map_of_SomeD)

lemma handle_ack_at_subset: "set (sent_packets (handle_ack_at t a s)) \<subseteq> set (sent_packets s)"
  unfolding handle_ack_at_sent_packets by (auto dest: set_dropWhileD)

lemma timeout_entry_wire:
  "\<exists>new. wire (timeout_entry now e s) = wire s @ new
        \<and> (\<forall>p \<in> set new. \<exists>k. (k, p) \<in> set (sent_packets s))"
  by (auto simp: timeout_entry_def Let_def split: option.splits dest: map_of_SomeD)

lemma timeout_fold_wire:
  "\<exists>new. wire (foldl (\<lambda>s e. timeout_entry now e s) s es) = wire s @ new
        \<and> (\<forall>p \<in> set new. \<exists>k. (k, p) \<in> set (sent_packets s))"
proof (induction es arbitrary: s)
  case Nil
  then show ?case by simp
next
  case (Cons e es)
  obtain n1 where n1: "wire (timeout_entry now e s) = wire s @ n1"
    "\<forall>p \<in> set n1. \<exists>k. (k, p) \<in> set (sent_packets s)"
    using timeout_entry_wire by blast
  obtain n2 where n2: "wire (foldl (\<lambda>s e. timeout_entry now e s) (timeout_entry now e s) es)
                        = wire (timeout_entry now e s) @ n2"
    "\<forall>p \<in> set n2. \<exists>k. (k, p) \<in> set (sent_packets (timeout_entry now e s))"
    using Cons.IH by blast
  have "wire (foldl (\<lambda>s e. timeout_entry now e s) s (e # es)) = wire s @ (n1 @ n2)"
    using n1(1) n2(1) by simp
  moreover have "\<forall>p \<in> set (n1 @ n2). \<exists>k. (k, p) \<in> set (sent_packets s)"
    using n1(2) n2(2) by auto
  ultimately show ?case by blast
qed

lemma check_timeout_wire:
  "\<exists>new. wire (check_timeout now s) = wire s @ new
        \<and> (\<forall>p \<in> set new. \<exists>k. (k, p) \<in> set (sent_packets s))"
  unfolding check_timeout_def by (rule timeout_fold_wire)

lemma step_wire:
  assumes "retired k s"
  shows "\<exists>new. wire (sender_step t f ev s) = wire s @ new \<and> (\<forall>p \<in> set new. seq_num (header p) \<noteq> k)"
proof -
  from assms have lt: "k < next_seq_num s" and nk: "k \<notin> fst ` set (sent_packets s)"
    and ok: "\<forall>kv \<in> set (sent_packets s). seq_num (header (snd kv)) = fst kv"
    by (simp_all add: retired_def stored_ok_def)
  have stored: "seq_num (header p) \<noteq> k" if "(key, p) \<in> set (sent_packets s)" for key p
    using that nk ok by force
  show ?thesis
  proof (cases ev)
    case (Send_new now)
    show ?thesis
    proof (cases "may_send (total_packets_of f) (window_limit s) s")
      case True
      obtain p where "wire (send_new f now s) = wire s @ [p]" "seq_num (header p) = next_seq_num s"
        using send_new_sent_packets by blast
      then show ?thesis using True Send_new lt by (auto simp: sender_step_def)
    next
      case False
      then show ?thesis using Send_new by (simp add: sender_step_def)
    qed
  next
    case (Recv_ack a)
    from handle_ack_at_wire [of t a s] show ?thesis
    proof
      assume "wire (handle_ack_at t a s) = wire s"
      then show ?thesis using Recv_ack by (simp add: sender_step_def)
    next
      assume "\<exists>p. wire (handle_ack_at t a s) = wire s @ [p]
                \<and> map_of (sent_packets s) (ack_num (header a)) = Some p"
      then obtain p where p: "wire (handle_ack_at t a s) = wire s @ [p]"
        "map_of (sent_packets s) (ack_num (header a)) = Some p" by blast
      from p(2) have "(ack_num (header a), p) \<in> set (sent_packets s)" by (rule map_of_SomeD)
      then have "seq_num (header p) \<noteq> k" by (rule stored)
      then show ?thesis using Recv_ack p(1) by (simp add: sender_step_def)
    qed
  next
    case (Timeout_scan now)
    obtain new where "wire (check_timeout now s) = wire s @ new"
      "\<forall>p \<in> set new. \<exists>key. (key, p) \<in> set (sent_packets s)"
      using check_timeout_wire by blast
    then show ?thesis using Timeout_scan stored by (auto simp: sender_step_def)
  qed
qed

lemma stored_ok_step: "stored_ok s \<Longrightarrow> stored_ok (sender_step t f ev s)"
proof (cases ev)
  case (Send_new now)
  assume ok: "stored_ok s"
  obtain p where p: "sent_packets (send_new f now s) = map_put (next_seq_num s) p (sent_packets s)"
    "seq_num (header p) = next_seq_num s"
    using send_new_sent_packets by blast
  have "stored_ok (send_new f now s)"
    unfolding stored_ok_def p(1) using ok p(2) set_map_put [of "next_seq_num s" p "sent_packets s"]
    by (auto simp: stored_ok_def)
  then show ?thesis using Send_new ok by (simp add: sender_step_def)
next
  case (Recv_ack a)
  assume "stored_ok s"
  then show ?thesis
    using Recv_ack handle_ack_at_subset [of t a s] by (auto simp: sender_step_def stored_ok_def)
next
  case (Timeout_scan now)
  assume "stored_ok s"
  then show ?thesis using Timeout_scan by (simp add: sender_step_def stored_ok_def)
qed

lemma retired_step:
  assumes "retired k s"
  shows "retired k (sender_step t f ev s)"
proof -
  from assms have lt: "k < next_seq_num s" and nk: "k \<notin> fst ` set (sent_packets s)"
    and ok: "stored_ok s"
    by (simp_all add: retired_def)
  have ok': "stored_ok (sender_step t f ev s)" using ok by (rule stored_ok_step)
  show ?thesis
  proof (cases ev)
    case (Send_new now)
    show ?thesis
    proof (cases "may_send (total_packets_of f) (window_limit s) s")
      case True
      then have "next_seq_num s < snd_seq_num s + total_packets_of f" by (simp add: may_send_def)
      then have less: "next_seq_num s < next_seq_num s + 1" by (rule less_inc)
      obtain p where p: "sent_packets (send_new f now s) = map_put (next_seq_num s) p (sent_packets s)"
        using send_new_sent_packets by blast
      have "k \<notin> fst ` set (sent_packets (send_new f now s))"
        unfolding p using nk lt set_map_put [of "next_seq_num s" p "sent_packets s"] by force
      moreover have "k < next_seq_num (send_new f now s)" using lt less by simp
      ultimately show ?thesis using True Send_new ok' by (simp add: retired_def sender_step_def)
    next
      case False
      then show ?thesis using Send_new assms by (simp add: sender_step_def)
    qed
  next
    case (Recv_ack a)
    have "k \<notin> fst ` set (sent_packets (handle_ack_at t a s))"
      using nk handle_ack_at_subset [of t a s] by auto
    then show ?thesis using Recv_ack lt ok' by (simp add: retired_def sender_step_def)
  next
    case (Timeout_scan now)
    then show ?thesis using lt nk ok' by (simp add: retired_def sender_step_def)
  qed
qed

lemma run_wire:
  "retired k s \<Longrightarrow>
     \<exists>new. wire (sender_run t f evs s) = wire s @ new \<and> (\<forall>p \<in> set new. seq_num (header p) \<noteq> k)"
proof (induction evs arbitrary: s)
  case Nil
  then show ?case by (simp add: sender_run_def)
next
  case (Cons ev evs)
  obtain n1 where n1: "wire (sender_step t f ev s) = wire s @ n1" "\<forall>p \<in> set n1. seq_num (header p) \<noteq> k"
    using step_wire [OF Cons.prems] by blast
  have "retired k (sender_step t f ev s)" using Cons.prems by (rule retired_step)
  from Cons.IH [OF this] obtain n2 where
    n2: "wire (sender_run t f evs (sender_step t f ev s)) = wire (sender_step t f ev s) @ n2"
    "\<forall>p \<in> set n2. seq_num (header p) \<noteq> k" by blast
  have "wire (sender_run t f (ev # evs) s) = wire s @ (n1 @ n2)"
    using n1(1) n2(1) by (simp add: sender_run_def)
  moreover have "\<forall>p \<in> set (n1 @ n2). seq_num (header p) \<noteq> k" using n1(2) n2(2) by auto
  ultimately show ?case by blast
qed

lemma base_step: "base s \<le> base (sender_step t f ev s)"
  by (cases ev) (auto simp: sender_step_def handle_ack_at_base)

lemma base_run: "base s \<le> base (sender_run t f evs s)"
proof (induction evs arbitrary: s)
  case Nil
  then show ?case by (simp add: sender_run_def)
next
  case (Cons ev evs)
  have "base s \<le> base (sender_step t f ev s)" by (rule base_step)
  also have "\<dots> \<le> base (sender_run t f evs (sender_step t f ev s))" by (rule Cons.IH)
  finally show ?case by (simp add: sender_run_def)
qed

lemma stored_ok_run: "stored_ok s \<Longrightarrow> stored_ok (sender_run t f evs s)"
  by (induction evs arbitrary: s) (simp_all add: sender_run_def stored_ok_step)

lemma stored_ok_connected: "stored_ok Sender_connected"
  by (simp add: stored_ok_def Sender_connected_def)

lemma sack_erased:
  assumes "b \<in> set (sack_blocks a)" "left_edge b \<le> k" "k < right_edge b"
  shows "k \<notin> fst ` set (sent_packets (handle_ack_at t a s))"
    and "k \<notin> fst ` set (send_times (handle_ack_at t a s))"
proof -
  have i: "in_sacks (sack_blocks a) k" using assms by (auto simp: in_sacks_def)
  show "k \<notin> fst ` set (sent_packets (handle_ack_at t a s))"
    unfolding handle_ack_at_sent_packets using i by auto
  have "\<exists>x. handle_ack_at t a s = process_sacks (sack_blocks a) x"
    by (auto simp: handle_ack_at_def Let_def)
  then obtain x where "handle_ack_at t a s = process_sacks (sack_blocks a) x" ..
  then show "k \<notin> fst ` set (send_times (handle_ack_at t a s))"
    using i by (auto simp: process_sacks_eq)
qed

text \<open>
  Claim C5 (SACK honoured). Let the sender, in a state \<open>s\<close> reached from the connected state,
  process an ACK that carries a SACK block \<open>[l, r)\<close>, and let \<open>k\<close> be a sequence number with
  \<open>l \<le> k < r\<close>. Then \<open>k\<close> is in neither \<open>sent_packets\<close> nor \<open>send_times\<close> afterwards; the
  processing of SACK blocks leaves \<open>base\<close> as it is; \<open>base\<close> never decreases in the steps that
  follow; and if \<open>k\<close> had been sent, no packet transmitted in any later step, new or
  retransmitted, carries the sequence number \<open>k\<close>.
\<close>

theorem C5_sack_honored:
  fixes evs0 evs :: "sender_event list" and trigger :: u32 and file_data :: "u8 list"
    and ack :: Packet
  defines "s \<equiv> sender_run trigger file_data evs0 Sender_connected"
  defines "s' \<equiv> handle_ack_at trigger ack s"
  assumes "b \<in> set (sack_blocks ack)" "left_edge b \<le> k" "k < right_edge b"
  shows "k \<notin> fst ` set (sent_packets s') \<and> k \<notin> fst ` set (send_times s')
       \<and> base (process_sacks (sack_blocks ack) x) = base x
       \<and> base s' \<le> base (sender_run trigger file_data evs s')
       \<and> (k < next_seq_num s \<longrightarrow>
            (\<exists>new. wire (sender_run trigger file_data evs s') = wire s' @ new
                 \<and> (\<forall>p \<in> set new. seq_num (header p) \<noteq> k)))"
proof -
  have e1: "k \<notin> fst ` set (sent_packets s')" and e2: "k \<notin> fst ` set (send_times s')"
    unfolding s'_def using assms(3-5) by (rule sack_erased)+
  have ok: "stored_ok s"
    unfolding s_def using stored_ok_connected by (rule stored_ok_run)
  have ok': "stored_ok s'"
    using stored_ok_step [OF ok, of trigger file_data "Recv_ack ack"]
    by (simp add: s'_def sender_step_def)
  have "\<exists>new. wire (sender_run trigger file_data evs s') = wire s' @ new
                 \<and> (\<forall>p \<in> set new. seq_num (header p) \<noteq> k)"
    if "k < next_seq_num s"
  proof -
    have "retired k s'"
      using that e1 ok' by (simp add: retired_def s'_def)
    then show ?thesis by (rule run_wire)
  qed
  with e1 e2 base_run [of s' trigger file_data evs] show ?thesis by simp
qed

lemma sack_events_next:
  "next_seq_num (sender_run 2 (replicate 3000 0) sack_events Sender_connected) = 4"
  by (simp add: sack_events_def sender_run_def sender_step_def may_send_def
      window_limit_def to_u32_def total_packets_of_def send_new_def Sender_send_packet_def
      handle_ack_at_def process_sacks_def
      Sender_connected_def ack_packet_for_def Packet_init_def PacketHeader_init_def Let_def
      map_erase_def)

text \<open>The run above, the ACK that confirms 3 selectively, then a scan for timeouts.\<close>

theorem C5_sack_honored_witness:
  "\<lparr>left_edge = 3, right_edge = 4\<rparr> \<in> set (sack_blocks sack_packet)
   \<and> 3 \<notin> fst ` set (sent_packets (handle_ack_at 2 sack_packet
                 (sender_run 2 (replicate 3000 0) sack_events Sender_connected)))
   \<and> 3 \<notin> fst ` set (send_times (handle_ack_at 2 sack_packet
                 (sender_run 2 (replicate 3000 0) sack_events Sender_connected)))
   \<and> (\<exists>new. wire (sender_run 2 (replicate 3000 0) [Timeout_scan 2000]
                 (handle_ack_at 2 sack_packet
                    (sender_run 2 (replicate 3000 0) sack_events Sender_connected)))
            = wire (handle_ack_at 2 sack_packet
                 (sender_run 2 (replicate 3000 0) sack_events Sender_connected)) @ new
          \<and> 3 \<notin> (\<lambda>p. seq_num (header p)) ` set new)"
proof -
  have b: "\<lparr>left_edge = 3, right_edge = 4\<rparr> \<in> set (sack_blocks sack_packet)"
    by (simp add: sack_packet_def)
  have n: "(3 :: u32) < next_seq_num (sender_run 2 (replicate 3000 0) sack_events Sender_connected)"
    by (simp add: sack_events_next)
  from C5_sack_honored [OF b, of 3 2 "replicate 3000 0" sack_events _ "[Timeout_scan 2000]"] b n
  show ?thesis by auto
qed

subsection \<open>The advertised window\<close>















section \<open>Short and damaged buffers\<close>

lemma deserialize_sacks_at:
  "deserialize_sacks c buf off acc
     = Some (acc @ sacks_at buf off (min c ((length buf - off) div 8)))"
proof (induction c arbitrary: off acc)
  case 0
  then show ?case by (simp add: sacks_at_def)
next
  case (Suc c)
  show ?case
  proof (cases "off + 8 \<le> length buf")
    case True
    then have d: "(length buf - off) div 8 = Suc ((length buf - (off + 8)) div 8)"
      by (simp add: le_div_geq)
    have "sacks_at buf off (Suc m) = sack_of_bytes (take 8 (drop off buf)) # sacks_at buf (off + 8) m" for m
    proof -
      have "[0..<Suc m] = 0 # map Suc [0..<m]"
        by (simp add: upt_conv_Cons map_Suc_upt del: upt_Suc)
      then show ?thesis
        by (simp add: sacks_at_def add.assoc del: upt_Suc)
    qed
    then show ?thesis
      using True by (simp add: Suc.IH buf_read_def d)
  next
    case False
    then have "(length buf - off) div 8 = 0" by simp
    then show ?thesis
      using False by (simp add: Suc.IH sacks_at_def)
  qed
qed


lemma deserialize_shape:
  fixes buf :: "u8 list"
  defines "h \<equiv> header_of_bytes (take HEADER_SIZE buf)"
  defines "n \<equiv> unat (data_length h)"
  assumes "HEADER_SIZE \<le> length buf"
  shows "deserialize buf =
     (if HEADER_SIZE + n \<le> length buf then
        if MAX_DATA_SIZE < n then None
        else Some \<lparr>header = h, data = take n (drop HEADER_SIZE buf) @ replicate (MAX_DATA_SIZE - n) 0,
                   sack_blocks = sacks_at buf (HEADER_SIZE + n)
                     (min (unat (sack_count h)) ((length buf - (HEADER_SIZE + n)) div 8))\<rparr>
      else Some \<lparr>header = h, data = replicate MAX_DATA_SIZE 0,
                 sack_blocks = sacks_at buf HEADER_SIZE
                     (min (unat (sack_count h)) ((length buf - HEADER_SIZE) div 8))\<rparr>)"
  using assms(3) unfolding h_def n_def
  by (auto simp: deserialize_def buf_read_def array_write_def Packet_init_def deserialize_sacks_at
      Let_def min_def)











subsection \<open>Inverted bits\<close>

lemma u16_at_bytes:
  fixes a b :: u8
  shows "ucast (ucast a OR push_bit 8 (ucast b) :: u16) = a"
    and "ucast (drop_bit 8 (ucast a OR push_bit 8 (ucast b) :: u16)) = b"
  by (rule bit_word_eqI; auto simp: bit_simps dest: bit_imp_le_length)+

lemma u32_at_bytes:
  fixes a b c d :: u8
  defines "w \<equiv> (ucast a OR push_bit 8 (ucast b) OR push_bit 16 (ucast c) OR push_bit 24 (ucast d) :: u32)"
  shows "ucast w = a" "ucast (drop_bit 8 w) = b" "ucast (drop_bit 16 w) = c" "ucast (drop_bit 24 w) = d"
  unfolding w_def by (rule bit_word_eqI; auto simp: bit_simps dest: bit_imp_le_length)+

lemma le16_u16_at: "le16 (u16_at bs i) = [bs ! i, bs ! (i + 1)]"
  unfolding le16_def u16_at_def by (simp only: u16_at_bytes)

lemma le32_u32_at: "le32 (u32_at bs i) = [bs ! i, bs ! (i + 1), bs ! (i + 2), bs ! (i + 3)]"
  unfolding le32_def u32_at_def by (simp only: u32_at_bytes)

lemma sack_bytes_sack_of_bytes: "length ys = 8 \<Longrightarrow> sack_bytes (sack_of_bytes ys) = ys"
  by (auto simp: sack_bytes_def sack_of_bytes_def le32_u32_at numeral_eq_Suc length_Suc_conv)

lemma header_bytes_header_of_bytes: "length xs = 20 \<Longrightarrow> header_bytes (header_of_bytes xs) = xs"
  by (auto simp: header_bytes_def header_of_bytes_def le16_u16_at le32_u32_at numeral_eq_Suc length_Suc_conv)

lemma nat_xor_bit:
  fixes a :: nat
  shows "bit a j \<Longrightarrow> (a XOR 2 ^ j) + 2 ^ j = a"
    and "\<not> bit a j \<Longrightarrow> a XOR 2 ^ j = a + 2 ^ j"
proof -
  have x: "a XOR 2 ^ j = flip_bit j a"
    by (simp add: flip_bit_nat_def)
  show "a XOR 2 ^ j = a + 2 ^ j" if "\<not> bit a j"
    using that by (simp add: x flip_bit_eq_if set_bit_eq)
  show "(a XOR 2 ^ j) + 2 ^ j = a" if "bit a j"
  proof -
    define c where "c = unset_bit j a"
    have "\<not> bit c j" by (simp add: c_def bit_unset_bit_iff)
    then have "set_bit j c = c + 2 ^ j" by (simp add: set_bit_eq)
    moreover have "set_bit j c = a"
      by (rule bit_eqI) (auto simp: c_def bit_set_bit_iff bit_unset_bit_iff that)
    moreover have "a XOR 2 ^ j = c"
      using that by (simp add: x flip_bit_eq_if c_def)
    ultimately show ?thesis by simp
  qed
qed

lemma unat_flip:
  assumes "j < 8"
  shows "unat (flip j x) + 2 ^ j = unat x \<or> unat (flip j x) = unat x + 2 ^ j"
proof -
  have "unat (push_bit j 1 :: u8) = take_bit LENGTH(8) (push_bit j (unat (1 :: u8)))"
    by (rule unsigned_push_bit_eq)
  also have "\<dots> = 2 ^ j"
    using assms by (simp add: take_bit_nat_eq_self)
  finally have "unat (push_bit j 1 :: u8) = 2 ^ j" .
  then have "unat (flip j x) = unat x XOR 2 ^ j"
    by (simp add: flip_def unsigned_xor_eq)
  then show ?thesis
    using nat_xor_bit [of "unat x" j] by (cases "bit (unat x) j") simp_all
qed

lemma wsum_append: "even (length xs) \<Longrightarrow> wsum (xs @ ys) = wsum xs + wsum ys"
  by (induction xs rule: wsum.induct) simp_all

lemma wsum_update:
  "i < length xs \<Longrightarrow>
     wsum (xs[i := y]) + (if even i then 256 else 1) * unat (xs ! i)
       = wsum xs + (if even i then 256 else 1) * unat y"
proof (induction xs arbitrary: i rule: wsum.induct)
  case 1
  then show ?case by simp
next
  case (2 a)
  then show ?case by simp
next
  case (3 a b bs)
  show ?case
  proof (cases i)
    case 0
    then show ?thesis by simp
  next
    case (Suc i1)
    show ?thesis
    proof (cases i1)
      case 0
      then show ?thesis using Suc by simp
    next
      case (Suc i2)
      then have "i2 < length bs" using "3.prems" \<open>i = Suc i1\<close> by simp
      from "3.IH" [OF this] show ?thesis
        using Suc \<open>i = Suc i1\<close> by simp
    qed
  qed
qed

lemma wsum_le: "wsum xs \<le> 65535 * length xs"
proof (induction xs rule: wsum.induct)
  case 1
  then show ?case by simp
next
  case (2 a)
  have "unat a < 256" using unsigned_less [of a, where 'a = nat] by simp
  then show ?case by simp
next
  case (3 a b bs)
  have "unat a < 256" "unat b < 256"
    using unsigned_less [of a, where 'a = nat] unsigned_less [of b, where 'a = nat] by simp_all
  then show ?case using 3 by simp
qed

lemma sacks_sum_snoc: "sacks_sum (bl @ [b]) = sacks_sum bl + wsum (sack_bytes b)"
  by (simp add: sacks_sum_def)

lemma sacks_sum_sacks_at:
  "off + 8 * m \<le> length buf \<Longrightarrow> sacks_sum (sacks_at buf off m) = wsum (take (8 * m) (drop off buf))"
proof (induction m)
  case 0
  then show ?case by (simp add: sacks_at_def sacks_sum_def)
next
  case (Suc m)
  have s: "sacks_at buf off (Suc m) = sacks_at buf off m @ [sack_of_bytes (take 8 (drop (off + 8 * m) buf))]"
    by (simp add: sacks_at_def)
  have l: "length (take 8 (drop (off + 8 * m) buf)) = 8"
    using Suc.prems by simp
  have t: "take (8 * Suc m) (drop off buf) = take (8 * m) (drop off buf) @ take 8 (drop (off + 8 * m) buf)"
    using take_add [of "8 * m" 8 "drop off buf"] by (simp add: add.commute)
  have e: "even (length (take (8 * m) (drop off buf)))"
    using Suc.prems by simp
  have "off + 8 * m \<le> length buf" using Suc.prems by simp
  from Suc.IH [OF this] show ?case
    by (simp only: s t sacks_sum_snoc sack_bytes_sack_of_bytes [OF l] wsum_append [OF e])
qed

lemma sacks_sum_concat: "sacks_sum bl = wsum (concat (map sack_bytes bl))"
proof (induction bl)
  case Nil
  then show ?case by (simp add: sacks_sum_def)
next
  case (Cons b bl)
  have "even (length (sack_bytes b))" by (simp add: length_sack_bytes)
  from wsum_append [OF this] Cons show ?case by (simp add: sacks_sum_def)
qed

lemma length_concat_sacks: "length (concat (map sack_bytes bl)) = 8 * length bl"
  by (induction bl) (simp_all add: length_sack_bytes)

lemma deserialize_frame:
  assumes "length hb = HEADER_SIZE"
    and "unat (data_length (header_of_bytes hb)) = length pl"
    and "length pl \<le> MAX_DATA_SIZE"
    and "8 * unat (sack_count (header_of_bytes hb)) = length sb"
  shows "\<exists>q. deserialize (hb @ pl @ sb) = Some q \<and> header q = header_of_bytes hb
             \<and> length (data q) = MAX_DATA_SIZE \<and> take (length pl) (data q) = pl
             \<and> sacks_sum (sack_blocks q) = wsum sb"
proof -
  let ?buf = "hb @ pl @ sb"
  let ?c = "unat (sack_count (header_of_bytes hb))"
  have len: "HEADER_SIZE \<le> length ?buf" using assms(1) by simp
  have tk: "take HEADER_SIZE ?buf = hb" using assms(1) by simp
  have d: "length sb div 8 = ?c"
    using assms(4) [symmetric] by simp
  have s: "sacks_sum (sacks_at ?buf (HEADER_SIZE + length pl) ?c) = wsum sb"
  proof -
    have "HEADER_SIZE + length pl + 8 * ?c \<le> length ?buf" using assms(1,4) by simp
    from sacks_sum_sacks_at [OF this] show ?thesis using assms(1,4) by simp
  qed
  have "deserialize ?buf =
      Some \<lparr>header = header_of_bytes hb, data = pl @ replicate (MAX_DATA_SIZE - length pl) 0,
            sack_blocks = sacks_at ?buf (HEADER_SIZE + length pl) ?c\<rparr>"
    using deserialize_shape [OF len] assms(1,3) by (simp add: tk assms(2) d)
  then show ?thesis using s assms(3) by simp
qed

lemma verify_checksum_eq:
  assumes "unat (data_length (header q)) \<le> length (data q)"
  shows "verify_checksum q = Some (fold_carry (packet_sum q mod 2 ^ 32) = 65535)"
proof -
  have "fold_carry (packet_sum q mod 2 ^ 32) \<le> 65535" by (rule fold_carry_le) simp
  then show ?thesis
    by (simp add: verify_checksum_def calculate_checksum_eq [OF assms] not_of_nat_zero_iff)
qed

lemma verify_checksum_old_eq:
  assumes "unat (data_length (header q)) \<le> length (data q)"
  shows "verify_checksum_old q
    = Some (65535 - fold_carry (packet_sum_old q mod 2 ^ 32) = unat (checksum (header q)))"
proof -
  let ?z = "q\<lparr>header := (header q)\<lparr>checksum := 0\<rparr>\<rparr>"
  have le: "fold_carry (packet_sum_old q mod 2 ^ 32) \<le> 65535" by (rule fold_carry_le) simp
  have "unat (data_length (header ?z)) \<le> length (data ?z)" using assms by simp
  from calculate_checksum_old_eq [OF this]
  have "calculate_checksum_old ?z = Some (NOT (of_nat (fold_carry (packet_sum_old q mod 2 ^ 32))))"
    by (simp only: packet_sum_old_checksum)
  moreover have "(NOT (of_nat f :: u16) = c) = (65535 - f = unat c)" if "f \<le> 65535" for f c
    using unat_complement [OF that] by (auto simp: word_unat_eq_iff)
  ultimately show ?thesis
    using le by (simp add: verify_checksum_old_def Let_def)
qed

lemma fold_carry_shift:
  assumes "x + d < 2 ^ 32" "0 < d" "d < 65535"
  shows "fold_carry (x + d) \<noteq> fold_carry x"
proof (cases "x = 0")
  case True
  then show ?thesis using assms by (simp add: fold_carry_small)
next
  case False
  have x: "x < 2 ^ 32" using assms(1) by simp
  have 1: "fold_carry x = (x - 1) mod 65535 + 1"
    using x False by (rule fold_carry_char)
  have 2: "fold_carry (x + d) = (x + d - 1) mod 65535 + 1"
    using assms(1) False by (intro fold_carry_char) simp_all
  have 3: "x + d - 1 = (x - 1) + d" using False by simp
  show ?thesis
  proof
    assume "fold_carry (x + d) = fold_carry x"
    then have "(x + d - 1) mod 65535 + 1 = (x - 1) mod 65535 + 1"
      by (simp only: 1 2)
    then have "(x + d - 1) mod 65535 = (x - 1) mod 65535"
      by simp
    then have "((x - 1) + d) mod 65535 = (x - 1) mod 65535"
      by (simp only: 3)
    then have "65535 dvd ((x - 1) + d) - (x - 1)"
      by (simp add: mod_eq_dvd_iff_nat)
    then have "65535 dvd d" by simp
    then show False using assms(2,3) by (auto dest: dvd_imp_le)
  qed
qed

lemma wsum_flip:
  assumes "i < length xs" "j < 8"
  shows "\<exists>d. 0 < d \<and> d < 65535
           \<and> (wsum (xs[i := flip j (xs ! i)]) + d = wsum xs \<or> wsum (xs[i := flip j (xs ! i)]) = wsum xs + d)"
proof -
  define w :: nat where "w = (if even i then 256 else 1)"
  define d :: nat where "d = w * 2 ^ j"
  have "(2::nat) ^ j \<le> 2 ^ 7" using assms(2) by (intro power_increasing) simp_all
  then have j: "(2::nat) ^ j \<le> 128" "0 < (2::nat) ^ j" by simp_all
  have w: "w = 256 \<or> w = 1" by (simp add: w_def)
  have d: "0 < d" "d < 65535"
  proof -
    show "0 < d" using w j by (auto simp: d_def)
    from w show "d < 65535"
    proof
      assume "w = 256"
      then have "d = 256 * 2 ^ j" by (simp add: d_def)
      then show ?thesis using j(1) by linarith
    next
      assume "w = 1"
      then have "d = 2 ^ j" by (simp add: d_def)
      then show ?thesis using j(1) by linarith
    qed
  qed
  have u: "wsum (xs[i := flip j (xs ! i)]) + w * unat (xs ! i) = wsum xs + w * unat (flip j (xs ! i))"
    using wsum_update [OF assms(1), of "flip j (xs ! i)"] by (simp add: w_def)
  from unat_flip [OF assms(2), of "xs ! i"]
  have "wsum (xs[i := flip j (xs ! i)]) + d = wsum xs \<or> wsum (xs[i := flip j (xs ! i)]) = wsum xs + d"
  proof
    assume "unat (flip j (xs ! i)) + 2 ^ j = unat (xs ! i)"
    then have "w * unat (xs ! i) = w * unat (flip j (xs ! i)) + d"
      by (simp add: d_def distrib_left [symmetric])
    with u show ?thesis by simp
  next
    assume "unat (flip j (xs ! i)) = unat (xs ! i) + 2 ^ j"
    then have "w * unat (flip j (xs ! i)) = w * unat (xs ! i) + d"
      by (simp add: d_def distrib_left)
    with u show ?thesis by simp
  qed
  with d show ?thesis by blast
qed

lemma wsum_header_split:
  assumes "length hb = HEADER_SIZE"
  shows "wsum hb = 256 * unat (hb ! 0) + unat (hb ! 1) + wsum (drop 4 hb)
                   + (256 * unat (hb ! 2) + unat (hb ! 3))"
proof -
  from assms obtain a b c d r where "hb = a # b # c # d # r"
    by (auto simp: numeral_eq_Suc length_Suc_conv)
  then show ?thesis by simp
qed

lemma header_fields_update:
  assumes "i \<notin> {14..19}"
  shows "data_length (header_of_bytes (hb[i := y])) = data_length (header_of_bytes hb)"
    and "sack_count (header_of_bytes (hb[i := y])) = sack_count (header_of_bytes hb)"
proof -
  from assms have "i \<noteq> 14" "i \<noteq> 15" "i \<noteq> 16" "i \<noteq> 17" "i \<noteq> 18" "i \<noteq> 19"
    by auto
  then show "data_length (header_of_bytes (hb[i := y])) = data_length (header_of_bytes hb)"
    and "sack_count (header_of_bytes (hb[i := y])) = sack_count (header_of_bytes hb)"
    by (simp_all add: header_of_bytes_def u16_at_def u32_at_def)
qed

lemma of_nat_fold_inj:
  assumes "f \<le> 65535" "g \<le> 65535" "65535 - f = (65535::nat) - g"
  shows "f = g"
  using assms by linarith

lemma damaged_packet:
  fixes p :: Packet and hb' pl' sb' :: "u8 list"
  defines "hb \<equiv> header_bytes (header p)"
  defines "pl \<equiv> take (unat (data_length (header p))) (data p)"
  defines "sb \<equiv> concat (map sack_bytes (sack_blocks p))"
  assumes wf: "well_formed p"
    and size: "length (hb @ pl @ sb) \<le> 2 * MAX_PACKET_SIZE"
    and len: "length hb' = HEADER_SIZE" "length pl' = length pl" "length sb' = length sb"
    and fields: "data_length (header_of_bytes hb') = data_length (header p)"
                "sack_count (header_of_bytes hb') = sack_count (header p)"
    and ck: "hb' ! 2 = hb ! 2" "hb' ! 3 = hb ! 3"
    and d: "0 < d" "d < 65535"
    and diff: "wsum hb' + wsum pl' + wsum sb' + d = wsum hb + wsum pl + wsum sb
             \<or> wsum hb' + wsum pl' + wsum sb' = wsum hb + wsum pl + wsum sb + d"
  shows "\<exists>q. deserialize (hb' @ pl' @ sb') = Some q
           \<and> (verify_checksum p = Some True \<longrightarrow> verify_checksum q = Some False)
           \<and> (verify_checksum_old p = Some True \<longrightarrow> verify_checksum_old q = Some False)"
proof -
  define T where "T = wsum hb + wsum pl + wsum sb"
  define T' where "T' = wsum hb' + wsum pl' + wsum sb'"
  define K where "K = 256 * unat (hb ! 2) + unat (hb ! 3)"
  define U where "U = 256 * unat (hb ! 0) + unat (hb ! 1) + wsum (drop 4 hb) + wsum pl + wsum sb"
  define U' where "U' = 256 * unat (hb' ! 0) + unat (hb' ! 1) + wsum (drop 4 hb') + wsum pl' + wsum sb'"
  from wf have n: "unat (data_length (header p)) \<le> length (data p)"
    and n': "unat (data_length (header p)) \<le> MAX_DATA_SIZE"
    and c: "unat (sack_count (header p)) = length (sack_blocks p)"
    by (simp_all add: well_formed_def)
  have lhb: "length hb = HEADER_SIZE" by (simp add: hb_def length_header_bytes)
  have lpl: "length pl = unat (data_length (header p))" using n by (simp add: pl_def)
  have lsb: "length sb = 8 * length (sack_blocks p)" by (simp add: sb_def length_concat_sacks)
  \<comment> \<open>the sums stay below the wrap-around\<close>
  have bound: "wsum xs + wsum ys + wsum zs < 2 ^ 32"
    if "length (xs @ ys @ zs) \<le> 2 * MAX_PACKET_SIZE" for xs ys zs :: "u8 list"
  proof -
    have "wsum xs + wsum ys + wsum zs \<le> 65535 * length xs + 65535 * length ys + 65535 * length zs"
      using wsum_le [of xs] wsum_le [of ys] wsum_le [of zs] by linarith
    also have "\<dots> = 65535 * length (xs @ ys @ zs)" by simp
    also have "\<dots> \<le> 65535 * (2 * MAX_PACKET_SIZE)" using that by (intro mult_le_mono2)
    also have "\<dots> < 2 ^ 32" by simp
    finally show ?thesis .
  qed
  have T: "T < 2 ^ 32" unfolding T_def using size by (rule bound)
  have T': "T' < 2 ^ 32" unfolding T'_def using size len lhb by (intro bound) simp
  have TU: "T = U + K" unfolding T_def U_def K_def using wsum_header_split [OF lhb] by simp
  have TU': "T' = U' + K" unfolding T'_def U'_def K_def using wsum_header_split [OF len(1)] ck by simp
  from diff have TT: "T' + d = T \<or> T' = T + d" by (simp add: T_def T'_def)
  then have UU: "U' + d = U \<or> U' = U + d" using TU TU' by auto
  have fT: "fold_carry T' \<noteq> fold_carry T"
    using TT fold_carry_shift [of T' d] fold_carry_shift [of T d] T T' d by auto
  have U: "U < 2 ^ 32" "U' < 2 ^ 32" using T T' TU TU' by simp_all
  have fU: "fold_carry U' \<noteq> fold_carry U"
    using UU fold_carry_shift [of U' d] fold_carry_shift [of U d] U d by auto
  \<comment> \<open>the packet as it was sent\<close>
  have sum_p: "packet_sum p = T"
    by (simp add: packet_sum_def T_def hb_def pl_def sb_def sacks_sum_concat)
  have sum_old_p: "packet_sum_old p = U"
    by (simp add: packet_sum_old_def U_def hb_def pl_def sb_def sacks_sum_concat)
  have ck_p: "checksum (header p) = u16_at hb 2"
    using header_of_bytes_header_bytes [of "header p"]
    by (simp add: hb_def header_of_bytes_def) (metis PacketHeader.select_convs(3))
  \<comment> \<open>the packet that is received\<close>
  have "unat (data_length (header_of_bytes hb')) = length pl'" using fields(1) len(2) lpl by simp
  moreover have "length pl' \<le> MAX_DATA_SIZE" using len(2) lpl n' by simp
  moreover have "8 * unat (sack_count (header_of_bytes hb')) = length sb'"
    using fields(2) len(3) lsb c by simp
  ultimately obtain q where q: "deserialize (hb' @ pl' @ sb') = Some q"
    "header q = header_of_bytes hb'" "length (data q) = MAX_DATA_SIZE"
    "take (length pl') (data q) = pl'" "sacks_sum (sack_blocks q) = wsum sb'"
    using deserialize_frame [OF len(1)] by blast
  have nq: "unat (data_length (header q)) = length pl'" using q(2) fields(1) len(2) lpl by simp
  have hq: "header_bytes (header q) = hb'" using q(2) header_bytes_header_of_bytes [OF len(1)] by simp
  have sum_q: "packet_sum q = T'" by (simp add: packet_sum_def T'_def nq hq q(4,5))
  have sum_old_q: "packet_sum_old q = U'" by (simp add: packet_sum_old_def U'_def nq hq q(4,5))
  have ck_q: "checksum (header q) = u16_at hb 2"
    using ck by (simp add: q(2) header_of_bytes_def u16_at_def)
  have dq: "unat (data_length (header q)) \<le> length (data q)" using nq q(3) len(2) lpl n' by simp
  have v1: "verify_checksum q = Some False" if "verify_checksum p = Some True"
  proof -
    from that have "fold_carry T = 65535"
      using verify_checksum_eq [OF n] T by (simp add: sum_p)
    then have "fold_carry T' \<noteq> 65535" using fT by simp
    then show ?thesis using verify_checksum_eq [OF dq] T' by (simp add: sum_q)
  qed
  have v2: "verify_checksum_old q = Some False" if "verify_checksum_old p = Some True"
  proof -
    have le: "fold_carry U \<le> 65535" "fold_carry U' \<le> 65535" using U by (simp_all add: fold_carry_le)
    from that have "65535 - fold_carry U = unat (u16_at hb 2)"
      using verify_checksum_old_eq [OF n] U by (simp add: sum_old_p ck_p)
    then have "65535 - fold_carry U' \<noteq> unat (u16_at hb 2)"
      using fU le of_nat_fold_inj [of "fold_carry U'" "fold_carry U"] by auto
    then show ?thesis using verify_checksum_old_eq [OF dq] U by (simp add: sum_old_q ck_q)
  qed
  from q(1) v1 v2 show ?thesis by blast
qed

lemma update_segment:
  fixes xs ys zs :: "'a list"
  shows "i < length xs \<Longrightarrow>
           (xs @ ys @ zs)[i := f ((xs @ ys @ zs) ! i)] = xs[i := f (xs ! i)] @ ys @ zs"
    and "length xs \<le> i \<Longrightarrow> i < length xs + length ys \<Longrightarrow>
           (xs @ ys @ zs)[i := f ((xs @ ys @ zs) ! i)]
             = xs @ ys[i - length xs := f (ys ! (i - length xs))] @ zs"
    and "length xs + length ys \<le> i \<Longrightarrow>
           (xs @ ys @ zs)[i := f ((xs @ ys @ zs) ! i)]
             = xs @ ys @ zs[i - length xs - length ys := f (zs ! (i - length xs - length ys))]"
proof -
  show "(xs @ ys @ zs)[i := f ((xs @ ys @ zs) ! i)] = xs[i := f (xs ! i)] @ ys @ zs"
    if "i < length xs"
    using that by (simp add: list_update_append nth_append)
  show "(xs @ ys @ zs)[i := f ((xs @ ys @ zs) ! i)]
             = xs @ ys[i - length xs := f (ys ! (i - length xs))] @ zs"
    if "length xs \<le> i" "i < length xs + length ys"
  proof -
    from that have "\<not> i < length xs" "i - length xs < length ys" by linarith+
    then show ?thesis by (simp add: list_update_append nth_append)
  qed
  show "(xs @ ys @ zs)[i := f ((xs @ ys @ zs) ! i)]
             = xs @ ys @ zs[i - length xs - length ys := f (zs ! (i - length xs - length ys))]"
    if "length xs + length ys \<le> i"
  proof -
    from that have "\<not> i < length xs" "\<not> i - length xs < length ys" by linarith+
    then show ?thesis by (simp add: list_update_append nth_append)
  qed
qed

text \<open>
  Claim C8 (single-bit flips), as the code has it. Let \<open>b\<close> be the serialization of a
  well-formed packet, no longer than the receive buffer of \<open>2 * MAX_PACKET_SIZE\<close> bytes. Invert
  one bit of \<open>b\<close> in a byte that belongs neither to the checksum field (bytes 2 and 3) nor to
  the fields \<open>data_length\<close> and \<open>sack_count\<close> (bytes 14 to 19). Then \<open>deserialize\<close> returns a
  packet, and if the original packet verifies, the returned packet does not; this holds for
  \<open>verify_checksum\<close> of the current and of the earlier revision.
\<close>

theorem C8_bit_flip_detected:
  assumes wf: "well_formed p" and ser: "serialize p = Some b"
    and size: "length b \<le> 2 * MAX_PACKET_SIZE"
    and i: "i < length b" "i \<notin> {2, 3}" "i \<notin> {14..19}" and j: "j < 8"
  shows "\<exists>q. deserialize (b[i := flip j (b ! i)]) = Some q
           \<and> (verify_checksum p = Some True \<longrightarrow> verify_checksum q = Some False)
           \<and> (verify_checksum_old p = Some True \<longrightarrow> verify_checksum_old q = Some False)"
proof -
  define hb where "hb = header_bytes (header p)"
  define pl where "pl = take (unat (data_length (header p))) (data p)"
  define sb where "sb = concat (map sack_bytes (sack_blocks p))"
  note damaged = damaged_packet [OF wf, folded hb_def pl_def sb_def]
  from wf have n: "unat (data_length (header p)) \<le> length (data p)"
    by (simp add: well_formed_def)
  have b: "b = hb @ pl @ sb"
    using ser n by (simp add: serialize_def Let_def hb_def pl_def sb_def)
  have lhb: "length hb = HEADER_SIZE" unfolding hb_def by (rule length_header_bytes)
  have sz: "length (hb @ pl @ sb) \<le> 2 * MAX_PACKET_SIZE" using size by (simp only: b)
  have f: "data_length (header_of_bytes hb) = data_length (header p)"
    "sack_count (header_of_bytes hb) = sack_count (header p)"
    by (simp_all add: hb_def header_of_bytes_header_bytes)
  consider (H) "i < length hb" | (P) "length hb \<le> i" "i < length hb + length pl"
    | (S) "length hb + length pl \<le> i"
    by linarith
  then show ?thesis
  proof cases
    case H
    define hb' where "hb' = hb[i := flip j (hb ! i)]"
    have upd: "b[i := flip j (b ! i)] = hb' @ pl @ sb"
      unfolding b hb'_def using H by (rule update_segment(1))
    from wsum_flip [OF H j] obtain d where d: "0 < d" "d < 65535"
      "wsum hb' + d = wsum hb \<or> wsum hb' = wsum hb + d" unfolding hb'_def by blast
    from d(3) have diff: "wsum hb' + wsum pl + wsum sb + d = wsum hb + wsum pl + wsum sb
        \<or> wsum hb' + wsum pl + wsum sb = wsum hb + wsum pl + wsum sb + d"
      by auto
    have ck: "hb' ! 2 = hb ! 2" "hb' ! 3 = hb ! 3" using i(2) by (simp_all add: hb'_def)
    have l: "length hb' = HEADER_SIZE" "length pl = length pl" "length sb = length sb"
      using lhb by (simp_all add: hb'_def)
    have f': "data_length (header_of_bytes hb') = data_length (header p)"
      "sack_count (header_of_bytes hb') = sack_count (header p)"
      using header_fields_update [OF i(3)] f by (simp_all add: hb'_def)
    show ?thesis
      unfolding upd by (rule damaged [OF sz l f' ck d(1,2) diff])
  next
    case P
    define pl' where "pl' = pl[i - length hb := flip j (pl ! (i - length hb))]"
    have upd: "b[i := flip j (b ! i)] = hb @ pl' @ sb"
      unfolding b pl'_def using P by (rule update_segment(2))
    from P have "i - length hb < length pl" by simp
    from wsum_flip [OF this j] obtain d where d: "0 < d" "d < 65535"
      "wsum pl' + d = wsum pl \<or> wsum pl' = wsum pl + d" unfolding pl'_def by blast
    from d(3) have diff: "wsum hb + wsum pl' + wsum sb + d = wsum hb + wsum pl + wsum sb
        \<or> wsum hb + wsum pl' + wsum sb = wsum hb + wsum pl + wsum sb + d"
      by auto
    have l: "length hb = HEADER_SIZE" "length pl' = length pl" "length sb = length sb"
      using lhb by (simp_all add: pl'_def)
    show ?thesis
      unfolding upd by (rule damaged [OF sz l f refl refl d(1,2) diff])
  next
    case S
    define sb' where "sb' = sb[i - length hb - length pl := flip j (sb ! (i - length hb - length pl))]"
    have upd: "b[i := flip j (b ! i)] = hb @ pl @ sb'"
      unfolding b sb'_def using S by (rule update_segment(3))
    from S i(1) have "i - length hb - length pl < length sb" by (simp add: b)
    from wsum_flip [OF this j] obtain d where d: "0 < d" "d < 65535"
      "wsum sb' + d = wsum sb \<or> wsum sb' = wsum sb + d" unfolding sb'_def by blast
    from d(3) have diff: "wsum hb + wsum pl + wsum sb' + d = wsum hb + wsum pl + wsum sb
        \<or> wsum hb + wsum pl + wsum sb' = wsum hb + wsum pl + wsum sb + d"
      by auto
    have l: "length hb = HEADER_SIZE" "length pl = length pl" "length sb' = length sb"
      using lhb by (simp_all add: sb'_def)
    show ?thesis
      unfolding upd by (rule damaged [OF sz l f refl refl d(1,2) diff])
  qed
qed

lemma fold_carry_examples: "fold_carry 131070 = 65535" "fold_carry 66559 = 1024"
  by (simp_all add: fold_carry_step fold_carry_small)

lemma flip_packet_facts:
  "well_formed (flip_packet c)"
  "serialize (flip_packet 0xFFFB) = Some (flip_bytes 0xFB 0xFF 2)"
  "serialize (flip_packet 0xFBFF) = Some (flip_bytes 0xFF 0xFB 2)"
  "verify_checksum (flip_packet 0xFFFB) = Some True"
  "verify_checksum_old (flip_packet 0xFBFF) = Some True"
  by (simp_all add: well_formed_def serialize_def flip_packet_def flip_bytes_def PacketHeader_init_def
      verify_checksum_def verify_checksum_old_def calculate_checksum_def calculate_checksum_old_def
      header_bytes_def le16_def le32_def add_sacks_def fold_carry_small fold_carry_examples Let_def)

lemma flip_bytes_length_bit:
  "(flip_bytes c0 c1 2)[14 := flip 1 (flip_bytes c0 c1 2 ! 14)] = flip_bytes c0 c1 0"
  by (simp add: flip_bytes_def flip_def eval_nat_numeral)

lemma flip_bytes_zero_length:
  "deserialize (flip_bytes 0xFB 0xFF 0)
     = Some (Packet_init\<lparr>header := PacketHeader_init\<lparr>type := DATA, checksum := 0xFFFB, seq_num := 1\<rparr>\<rparr>)"
  "deserialize (flip_bytes 0xFF 0xFB 0)
     = Some (Packet_init\<lparr>header := PacketHeader_init\<lparr>type := DATA, checksum := 0xFBFF, seq_num := 1\<rparr>\<rparr>)"
  by (simp_all add: deserialize_def flip_bytes_def buf_read_def header_of_bytes_def u16_at_def u32_at_def
      Packet_init_def PacketHeader_init_def sacks_at_def)

text \<open>
  A flip in \<open>data_length\<close> that goes unnoticed: with bit 1 of byte 14 inverted the declared
  length is 0, the payload word \<open>FDFF\<close> leaves the sum, and the sum is the same in one's
  complement arithmetic. The packet verifies in both revisions.
\<close>

theorem C8_bit_flip_counterexample:
  "well_formed (flip_packet 0xFFFB)
   \<and> verify_checksum (flip_packet 0xFFFB) = Some True
   \<and> serialize (flip_packet 0xFFFB) = Some (flip_bytes 0xFB 0xFF 2)
   \<and> (deserialize ((flip_bytes 0xFB 0xFF 2)[14 := flip 1 (flip_bytes 0xFB 0xFF 2 ! 14)])
        \<bind> verify_checksum) = Some True
   \<and> well_formed (flip_packet 0xFBFF)
   \<and> verify_checksum_old (flip_packet 0xFBFF) = Some True
   \<and> serialize (flip_packet 0xFBFF) = Some (flip_bytes 0xFF 0xFB 2)
   \<and> (deserialize ((flip_bytes 0xFF 0xFB 2)[14 := flip 1 (flip_bytes 0xFF 0xFB 2 ! 14)])
        \<bind> verify_checksum_old) = Some True"
proof -
  have 1: "(deserialize (flip_bytes 0xFB 0xFF 0) \<bind> verify_checksum) = Some True"
    by (simp add: flip_bytes_zero_length verify_checksum_def calculate_checksum_def
      Packet_init_def PacketHeader_init_def header_bytes_def le16_def le32_def add_sacks_def
      fold_carry_small Let_def)
  have 2: "(deserialize (flip_bytes 0xFF 0xFB 0) \<bind> verify_checksum_old) = Some True"
    by (simp add: flip_bytes_zero_length verify_checksum_old_def calculate_checksum_old_def
      Packet_init_def PacketHeader_init_def header_bytes_def le16_def le32_def add_sacks_def
      fold_carry_small Let_def)
  from 1 2 flip_packet_facts show ?thesis
    by (simp only: flip_bytes_length_bit simp_thms)
qed

theorem C8_bit_flip_detected_witness:
  "well_formed (flip_packet 0xFFFB)
   \<and> serialize (flip_packet 0xFFFB) = Some (flip_bytes 0xFB 0xFF 2)
   \<and> verify_checksum (flip_packet 0xFFFB) = Some True
   \<and> (\<exists>q. deserialize ((flip_bytes 0xFB 0xFF 2)[20 := flip 0 (flip_bytes 0xFB 0xFF 2 ! 20)]) = Some q
          \<and> verify_checksum q = Some False)"
proof -
  have l: "length (flip_bytes 0xFB 0xFF 2) = 22" by (simp add: flip_bytes_def)
  have h: "length (flip_bytes 0xFB 0xFF 2) \<le> 2 * MAX_PACKET_SIZE" "20 < length (flip_bytes 0xFB 0xFF 2)"
    "(20::nat) \<notin> {2, 3}" "(20::nat) \<notin> {14..19}" "(0::nat) < 8"
    by (simp_all add: l)
  from C8_bit_flip_detected [OF flip_packet_facts(1) flip_packet_facts(2) h] flip_packet_facts
  show ?thesis by auto
qed

end
